theory Spec2Isabelle
  imports Main
begin

section \<open>The browser's timer table\<close>

text \<open>
  Both controllers schedule work with \<^verbatim>\<open>setTimeout\<close> and cancel it with
  \<^verbatim>\<open>clearTimeout\<close>. The table of pending timers is kept explicitly: each entry is
  the timer's id, the clock value at which it is due, and the callback it runs. Ids are
  positive and never reused, as in a browser, so an id stored in a variable is truthy.
  Time is counted in milliseconds. The history \<open>fired\<close> records, oldest first, the
  clock value and the callback of every timer that has fired.
\<close>

datatype jsnum = NaN | Num int

record 'cb browser =
  timers :: "(nat \<times> nat \<times> 'cb) list"
  issued :: nat
  now :: nat
  fired :: "(nat \<times> 'cb) list"

definition timer_id :: "nat \<times> nat \<times> 'cb \<Rightarrow> nat" where
  "timer_id t = fst t"

definition due :: "nat \<times> nat \<times> 'cb \<Rightarrow> nat" where
  "due t = fst (snd t)"

definition callback_of :: "nat \<times> nat \<times> 'cb \<Rightarrow> 'cb" where
  "callback_of t = snd (snd t)"

text \<open>
  The delay argument of \<^verbatim>\<open>setTimeout\<close> is converted to a signed 32-bit integer
  (\<^verbatim>\<open>NaN\<close> becomes 0) and a negative delay is taken as 0.
\<close>

definition delay_ms :: "jsnum \<Rightarrow> nat" where
  "delay_ms d =
     (case d of
        NaN \<Rightarrow> 0
      | Num n \<Rightarrow>
          (let w = (n + 2147483648) mod 4294967296 - 2147483648
           in if w < 0 then 0 else nat w))"

definition setTimeout ::
  "'cb \<Rightarrow> nat \<Rightarrow> ('cb, 'z) browser_scheme \<Rightarrow> nat \<times> ('cb, 'z) browser_scheme" where
  "setTimeout cb ms b =
     (Suc (issued b),
      b\<lparr>timers := timers b @ [(Suc (issued b), now b + ms, cb)],
        issued := Suc (issued b)\<rparr>)"

definition clearTimeout ::
  "nat option \<Rightarrow> ('cb, 'z) browser_scheme \<Rightarrow> ('cb, 'z) browser_scheme" where
  "clearTimeout i b = b\<lparr>timers := filter (\<lambda>t. Some (timer_id t) \<noteq> i) (timers b)\<rparr>"

text \<open>
  The timer that fires next: the one due first, and among timers due at the same
  time the one that was set first (the table is kept in the order of the calls).
\<close>

fun earliest :: "(nat \<times> nat \<times> 'cb) list \<Rightarrow> (nat \<times> nat \<times> 'cb) option" where
  "earliest [] = None"
| "earliest (t # ts) =
     (case earliest ts of
        None \<Rightarrow> Some t
      | Some u \<Rightarrow> if due t \<le> due u then Some t else Some u)"

text \<open>A variable holding a timer id is tested for truthiness: null and 0 are falsy.\<close>

definition truthy :: "nat option \<Rightarrow> bool" where
  "truthy v = (case v of None \<Rightarrow> False | Some i \<Rightarrow> i \<noteq> 0)"

section \<open>LockController (js/contents.js)\<close>

record lock_config =
  enabled :: bool
  pin :: string
  length_c :: nat
  timeout :: jsnum

text \<open>
  The argument of \<^verbatim>\<open>updateSettings\<close> is an object that may leave fields out
  (the reset button passes no timeout); \<^verbatim>\<open>{ ...this.config, ...newConfig }\<close> keeps
  the old value of a field that is left out.
\<close>

record new_config =
  new_enabled :: "bool option"
  new_pin :: "string option"
  new_length :: "nat option"
  new_timeout :: "jsnum option"

definition spread :: "lock_config \<Rightarrow> new_config \<Rightarrow> lock_config" where
  "spread c n =
     \<lparr>enabled = (case new_enabled n of None \<Rightarrow> enabled c | Some v \<Rightarrow> v),
      pin = (case new_pin n of None \<Rightarrow> pin c | Some v \<Rightarrow> v),
      length_c = (case new_length n of None \<Rightarrow> length_c c | Some v \<Rightarrow> v),
      timeout = (case new_timeout n of None \<Rightarrow> timeout c | Some v \<Rightarrow> v)\<rparr>"

datatype lock_cb = CheckPinCb | UpdateDotsCb | LockCb | ActivityCb

datatype screen_op = AddActive | RemoveActive

text \<open>
  The controller's fields, followed by the parts of the page it reads and writes:
  whether the four activity listeners are attached to the document, the
  \<^verbatim>\<open>localStorage\<close> slot of the configuration, the \<^verbatim>\<open>.pin-dot\<close> elements (each
  with its \<^verbatim>\<open>filled\<close> and \<^verbatim>\<open>error\<close> class) and the operations performed on the
  class list of the lock screen, oldest first.
\<close>

record lock_ctl = "lock_cb browser" +
  isLocked :: bool
  boundReset :: bool
  debounceTimer :: "nat option"
  inputBuffer :: string
  timer :: "nat option"
  config :: lock_config
  listening :: bool
  stored :: "lock_config option"
  dots :: "(bool \<times> bool) list"
  screenOps :: "screen_op list"

definition saveConfig :: "lock_ctl \<Rightarrow> lock_ctl" where
  "saveConfig st = st\<lparr>stored := Some (config st)\<rparr>"

definition generatePinDots :: "lock_ctl \<Rightarrow> (bool \<times> bool) list" where
  "generatePinDots st = replicate (length_c (config st)) (False, False)"

definition updateDots :: "lock_ctl \<Rightarrow> lock_ctl" where
  "updateDots st =
     st\<lparr>dots := map (\<lambda>index. (index < length (inputBuffer st), False))
                    [0 ..< length (dots st)]\<rparr>"

definition stopActivityMonitoring :: "lock_ctl \<Rightarrow> lock_ctl" where
  "stopActivityMonitoring st =
     clearTimeout (debounceTimer st)
       (clearTimeout (timer st)
          (if boundReset st then st\<lparr>listening := False\<rparr> else st))"

definition resetActivityTimer :: "lock_ctl \<Rightarrow> lock_ctl" where
  "resetActivityTimer st =
     (if \<not> enabled (config st) \<or> isLocked st then st
      else
        (let r = setTimeout LockCb (delay_ms (timeout (config st))) (clearTimeout (timer st) st)
         in (snd r)\<lparr>timer := Some (fst r)\<rparr>))"

definition startActivityMonitoring :: "lock_ctl \<Rightarrow> lock_ctl" where
  "startActivityMonitoring st =
     (let st1 = stopActivityMonitoring st
      in if \<not> enabled (config st1) then st1
         else resetActivityTimer
                (if boundReset st1 then st1\<lparr>listening := True\<rparr> else st1))"

definition handleActivity :: "lock_ctl \<Rightarrow> lock_ctl" where
  "handleActivity st =
     (if truthy (debounceTimer st) then st
      else
        (let r = setTimeout ActivityCb 1000 st
         in (snd r)\<lparr>debounceTimer := Some (fst r)\<rparr>))"

definition showError :: "lock_ctl \<Rightarrow> lock_ctl" where
  "showError st =
     snd (setTimeout UpdateDotsCb 500
            (st\<lparr>dots := map (\<lambda>d. (fst d, True)) (dots st), inputBuffer := []\<rparr>))"

definition lock :: "lock_ctl \<Rightarrow> lock_ctl" where
  "lock st =
     (if isLocked st then st
      else
        (let st1 = updateDots (st\<lparr>isLocked := True, inputBuffer := []\<rparr>)
         in stopActivityMonitoring (st1\<lparr>screenOps := screenOps st1 @ [AddActive]\<rparr>)))"

definition unlock :: "lock_ctl \<Rightarrow> lock_ctl" where
  "unlock st =
     (let st1 = st\<lparr>isLocked := False, inputBuffer := [],
                   screenOps := screenOps st @ [RemoveActive]\<rparr>
      in if enabled (config st1) then startActivityMonitoring st1 else st1)"

definition checkPin :: "lock_ctl \<Rightarrow> lock_ctl" where
  "checkPin st = (if inputBuffer st = pin (config st) then unlock st else showError st)"

definition handleInput :: "string \<Rightarrow> lock_ctl \<Rightarrow> lock_ctl" where
  "handleInput key st =
     (if key = ''backspace'' then updateDots (st\<lparr>inputBuffer := butlast (inputBuffer st)\<rparr>)
      else if key = ''enter'' then checkPin st
      else if length (inputBuffer st) < length_c (config st) then
        (let st1 = st\<lparr>inputBuffer := inputBuffer st @ key\<rparr>
         in updateDots
              (if length (inputBuffer st1) = length_c (config st1)
               then snd (setTimeout CheckPinCb 100 st1) else st1))
      else updateDots st)"

definition toggleLock :: "lock_ctl \<Rightarrow> lock_ctl" where
  "toggleLock st = (if \<not> isLocked st then lock st else st)"

definition updateSettings :: "new_config \<Rightarrow> lock_ctl \<Rightarrow> lock_ctl" where
  "updateSettings newConfig st =
     (let st1 = saveConfig (st\<lparr>config := spread (config st) newConfig\<rparr>);
          st2 = st1\<lparr>dots := generatePinDots st1\<rparr>
      in if enabled (config st2) then startActivityMonitoring st2
         else stopActivityMonitoring st2)"

text \<open>
  The controller as the module declares it, on a page that has just been loaded, and
  \<^verbatim>\<open>init\<close>: the configuration is read from \<^verbatim>\<open>localStorage\<close> (it was written by
  \<^verbatim>\<open>saveConfig\<close>, with all four fields), the lock screen is rendered with its dots,
  and the handler of the activity listeners is bound.
\<close>

definition initial :: lock_ctl where
  "initial =
     \<lparr>timers = [], issued = 0, now = 0, fired = [],
      isLocked = False, boundReset = False, debounceTimer = None, inputBuffer = [],
      timer = None,
      config = \<lparr>enabled = False, pin = ''0000'', length_c = 4, timeout = Num 300000\<rparr>,
      listening = False, stored = None, dots = [], screenOps = []\<rparr>"

definition loadConfig :: "lock_ctl \<Rightarrow> lock_ctl" where
  "loadConfig st = (case stored st of None \<Rightarrow> st | Some saved \<Rightarrow> st\<lparr>config := saved\<rparr>)"

definition renderLockScreen :: "lock_ctl \<Rightarrow> lock_ctl" where
  "renderLockScreen st = st\<lparr>dots := generatePinDots st\<rparr>"

definition init :: "lock_ctl \<Rightarrow> lock_ctl" where
  "init st =
     (let st1 = (renderLockScreen (loadConfig st))\<lparr>boundReset := True\<rparr>
      in if enabled (config st1) then startActivityMonitoring st1 else st1)"

text \<open>
  The click handler of the settings dialog's save button (js/app.js). The form's
  fields are read from the page; \<^verbatim>\<open>parseInt\<close> of the checked radio button and of
  the timeout field are taken as already parsed (the timeout field may give
  \<^verbatim>\<open>NaN\<close>).
\<close>

record settings_form =
  lockEnabledChecked :: bool
  settingPin :: string
  settingPinConfirm :: string
  pinLengthChecked :: nat
  settingTimeout :: jsnum

datatype toast = PinsDoNotMatch | PinMustBeExactly nat | SettingsSaved

text \<open>
  The timeout field holds minutes and the handler multiplies them by 60000. The
  product is taken exactly, as JavaScript does as long as it is below \<open>2\<^sup>5\<^sup>3\<close>
  in absolute value.
\<close>

definition times_60000 :: "jsnum \<Rightarrow> jsnum" where
  "times_60000 v = (case v of NaN \<Rightarrow> NaN | Num n \<Rightarrow> Num (n * 60000))"

definition saveSettings_click :: "settings_form \<Rightarrow> lock_ctl \<Rightarrow> toast \<times> lock_ctl" where
  "saveSettings_click form st =
     (let enabled' = lockEnabledChecked form;
          pin' = settingPin form;
          confirmPin = settingPinConfirm form;
          length' = pinLengthChecked form;
          timeout' = times_60000 (settingTimeout form)
      in if enabled' \<and> pin' \<noteq> confirmPin then (PinsDoNotMatch, st)
         else if enabled' \<and> length pin' \<noteq> length' then (PinMustBeExactly length', st)
         else (SettingsSaved,
               updateSettings
                 \<lparr>new_enabled = Some enabled', new_pin = Some pin',
                  new_length = Some length', new_timeout = Some timeout'\<rparr> st))"

subsection \<open>Listeners and timer callbacks\<close>

text \<open>Comparison of strings as JavaScript's \<^verbatim>\<open><=\<close> does it, code unit by code unit.\<close>

fun str_le :: "string \<Rightarrow> string \<Rightarrow> bool" where
  "str_le [] ys = True"
| "str_le (x # xs) [] = False"
| "str_le (x # xs) (y # ys) =
     ((of_char x :: nat) < of_char y \<or> (x = y \<and> str_le xs ys))"

text \<open>
  \<^verbatim>\<open>attachListeners\<close>: a click carries the \<^verbatim>\<open>data-key\<close> of the keypad button it
  hit, if it hit one; a key press carries \<^verbatim>\<open>e.key\<close>.
\<close>

definition on_click :: "string option \<Rightarrow> lock_ctl \<Rightarrow> lock_ctl" where
  "on_click btn st =
     (if \<not> isLocked st then st
      else case btn of None \<Rightarrow> st | Some key \<Rightarrow> handleInput key st)"

definition on_keydown :: "string \<Rightarrow> lock_ctl \<Rightarrow> lock_ctl" where
  "on_keydown key st =
     (if \<not> isLocked st then st
      else if str_le ''0'' key \<and> str_le key ''9'' then handleInput key st
      else if key = ''Backspace'' then handleInput ''backspace'' st
      else if key = ''Enter'' then handleInput ''enter'' st
      else st)"

text \<open>
  A mouse move, mouse press, key press or touch move reaches \<^verbatim>\<open>boundReset\<close>, which
  calls \<^verbatim>\<open>handleActivity\<close>, only while the listeners are attached.
\<close>

definition on_activity :: "lock_ctl \<Rightarrow> lock_ctl" where
  "on_activity st = (if listening st then handleActivity st else st)"

definition run_callback :: "lock_cb \<Rightarrow> lock_ctl \<Rightarrow> lock_ctl" where
  "run_callback cb st =
     (case cb of
        CheckPinCb \<Rightarrow> checkPin st
      | UpdateDotsCb \<Rightarrow> updateDots st
      | LockCb \<Rightarrow> lock st
      | ActivityCb \<Rightarrow> resetActivityTimer (st\<lparr>debounceTimer := None\<rparr>))"

text \<open>
  A timer fires: it leaves the table, the clock has reached its due time, the firing
  is recorded and its callback runs.
\<close>

definition fire :: "nat \<times> nat \<times> lock_cb \<Rightarrow> lock_ctl \<Rightarrow> lock_ctl" where
  "fire t st =
     run_callback (callback_of t)
       (st\<lparr>timers := remove1 t (timers st), now := max (now st) (due t),
           fired := fired st @ [(max (now st) (due t), callback_of t)]\<rparr>)"

text \<open>
  No callback sets a timer whose callback sets timers in turn, so the timers that
  are pending, weighed by what their callbacks can still set, decrease with every
  firing.
\<close>

definition weight :: "lock_cb \<Rightarrow> nat" where
  "weight cb = (case cb of CheckPinCb \<Rightarrow> 2 | ActivityCb \<Rightarrow> 2 | LockCb \<Rightarrow> 1 | UpdateDotsCb \<Rightarrow> 1)"

definition pending_weight :: "lock_ctl \<Rightarrow> nat" where
  "pending_weight st = sum_list (map (\<lambda>t. weight (callback_of t)) (timers st))"

text \<open>
  Time passes until \<open>T\<close> with no event from the user: every timer due by then fires,
  in order, including the timers that the callbacks set.
\<close>

function run_until :: "nat \<Rightarrow> lock_ctl \<Rightarrow> lock_ctl" where
  "run_until T st =
     (case earliest (timers st) of
        None \<Rightarrow> st\<lparr>now := max (now st) T\<rparr>
      | Some t \<Rightarrow>
          if due t \<le> T then run_until T (fire t st)
          else st\<lparr>now := max (now st) T\<rparr>)"
  by pat_completeness auto


lemma earliest_mem: "earliest ts = Some t \<Longrightarrow> t \<in> set ts"
  by (induction ts arbitrary: t) (auto split: option.splits if_splits)

lemma pw_clear: "pending_weight (clearTimeout i st) \<le> pending_weight st"
  unfolding pending_weight_def clearTimeout_def
  by (simp add: sum_list_filter_le_nat)

lemma pw_set: "pending_weight (snd (setTimeout cb ms st)) = pending_weight st + weight cb"
  unfolding pending_weight_def setTimeout_def by (simp add: callback_of_def)

lemma pw_stop: "pending_weight (stopActivityMonitoring st) \<le> pending_weight st"
proof -
  have "pending_weight (if boundReset st then st\<lparr>listening := False\<rparr> else st) = pending_weight st"
    by (simp add: pending_weight_def)
  then show ?thesis
    unfolding stopActivityMonitoring_def
    by (metis pw_clear le_trans)
qed

lemma pw_reset: "pending_weight (resetActivityTimer st) \<le> pending_weight st + 1"
proof -
  have "pending_weight (snd (setTimeout LockCb d (clearTimeout (timer st) st))) \<le> pending_weight st + 1" for d
    using pw_clear[of "timer st" st] by (simp add: pw_set weight_def)
  then show ?thesis
    unfolding resetActivityTimer_def by (simp add: Let_def pending_weight_def)
qed

lemma pw_start: "pending_weight (startActivityMonitoring st) \<le> pending_weight st + 1"
proof -
  have a: "pending_weight (s\<lparr>listening := True\<rparr>) = pending_weight s" for s
    by (simp add: pending_weight_def)
  show ?thesis
    unfolding startActivityMonitoring_def Let_def
    using pw_stop[of st] pw_reset[of "stopActivityMonitoring st"]
      pw_reset[of "(stopActivityMonitoring st)\<lparr>listening := True\<rparr>"]
    by (auto simp: a)
qed

lemma pw_upd: "pending_weight (updateDots st) = pending_weight st"
  by (simp add: updateDots_def pending_weight_def)

lemma pw_lock: "pending_weight (lock st) \<le> pending_weight st"
proof (cases "isLocked st")
  case True
  then show ?thesis by (simp add: lock_def)
next
  case False
  let ?s = "updateDots (st\<lparr>isLocked := True, inputBuffer := []\<rparr>)"
  have "pending_weight (lock st) \<le> pending_weight (?s\<lparr>screenOps := screenOps ?s @ [AddActive]\<rparr>)"
    using False by (simp add: lock_def Let_def pw_stop)
  also have "\<dots> = pending_weight st"
    by (simp add: pending_weight_def updateDots_def)
  finally show ?thesis .
qed

lemma pw_unlock: "pending_weight (unlock st) \<le> pending_weight st + 1"
proof -
  let ?s = "st\<lparr>isLocked := False, inputBuffer := [], screenOps := screenOps st @ [RemoveActive]\<rparr>"
  have "pending_weight ?s = pending_weight st"
    by (simp add: pending_weight_def)
  then show ?thesis
    using pw_start[of ?s] by (simp add: unlock_def Let_def)
qed

lemma pw_showError: "pending_weight (showError st) = pending_weight st + 1"
  by (simp add: showError_def pw_set weight_def) (simp add: pending_weight_def)

lemma pw_callback: "pending_weight (run_callback cb st) + 1 \<le> pending_weight st + weight cb"
proof (cases cb)
  case CheckPinCb
  then show ?thesis
    using pw_unlock[of st] by (simp add: run_callback_def checkPin_def pw_showError weight_def)
next
  case UpdateDotsCb
  then show ?thesis by (simp add: run_callback_def pw_upd weight_def)
next
  case LockCb
  then show ?thesis using pw_lock[of st] by (simp add: run_callback_def weight_def)
next
  case ActivityCb
  have "pending_weight (st\<lparr>debounceTimer := None\<rparr>) = pending_weight st"
    by (simp add: pending_weight_def)
  then show ?thesis
    using ActivityCb pw_reset[of "st\<lparr>debounceTimer := None\<rparr>"]
    by (simp add: run_callback_def weight_def)
qed

lemma pw_fire:
  assumes "t \<in> set (timers st)"
  shows "pending_weight (fire t st) < pending_weight st"
proof -
  let ?s = "st\<lparr>timers := remove1 t (timers st), now := max (now st) (due t),
                fired := fired st @ [(max (now st) (due t), callback_of t)]\<rparr>"
  have "pending_weight ?s + weight (callback_of t) = pending_weight st"
    using assms by (simp add: pending_weight_def sum_list_map_remove1)
  then show ?thesis
    using pw_callback[of "callback_of t" ?s] by (simp add: fire_def)
qed

termination run_until
  by (relation "measure (\<lambda>(T, st). pending_weight st)")
     (auto simp: pw_fire earliest_mem)

declare run_until.simps [simp del]

text \<open>
  What happens on the page, each event with the clock value at which it arrives: a
  key press, a click (on a keypad button or elsewhere), an activity signal, a click
  on the lock button (js/app.js calls \<^verbatim>\<open>lock\<close>) and a click on the save button of
  the settings dialog. Timers that are due fire before the event is handled.
\<close>

datatype lock_event =
    KeyDown string
  | Click "string option"
  | Activity
  | LockButton
  | SaveSettings settings_form

definition dispatch :: "lock_event \<Rightarrow> lock_ctl \<Rightarrow> lock_ctl" where
  "dispatch e st =
     (case e of
        KeyDown key \<Rightarrow> on_keydown key st
      | Click btn \<Rightarrow> on_click btn st
      | Activity \<Rightarrow> on_activity st
      | LockButton \<Rightarrow> lock st
      | SaveSettings form \<Rightarrow> snd (saveSettings_click form st))"

fun run :: "(nat \<times> lock_event) list \<Rightarrow> lock_ctl \<Rightarrow> lock_ctl" where
  "run [] st = st"
| "run (e # es) st = run es (dispatch (snd e) (run_until (fst e) st))"


subsection \<open>Notions used in the statements about the lock\<close>

text \<open>
  The configuration that a settings form asks for, and the forms that the click
  handler turns down: the lock is enabled and the PIN differs from its confirmation
  or has not the selected length.
\<close>

definition entered :: "settings_form \<Rightarrow> lock_config" where
  "entered form =
     \<lparr>enabled = lockEnabledChecked form, pin = settingPin form,
      length_c = pinLengthChecked form, timeout = times_60000 (settingTimeout form)\<rparr>"

definition refused :: "settings_form \<Rightarrow> bool" where
  "refused form =
     (lockEnabledChecked form
      \<and> (settingPin form \<noteq> settingPinConfirm form
         \<or> length (settingPin form) \<noteq> pinLengthChecked form))"

text \<open>A form with a PIN that is not a number and a timeout of 0 minutes.\<close>

definition zero_timeout_form :: settings_form where
  "zero_timeout_form =
     \<lparr>lockEnabledChecked = True, settingPin = ''12ab'', settingPinConfirm = ''12ab'',
      pinLengthChecked = 4, settingTimeout = Num 0\<rparr>"

text \<open>
  The keys of the lock screen. The keypad that \<^verbatim>\<open>renderLockScreen\<close> writes has
  twelve buttons; a key press carries in \<^verbatim>\<open>e.key\<close> one character or the name of a
  key, and the names begin with a capital letter. The buffer is as the data model
  wants it when it holds digits only and no more of them than the configured length.
\<close>

definition is_digit :: "char \<Rightarrow> bool" where
  "is_digit c = (48 \<le> (of_char c :: nat) \<and> (of_char c :: nat) \<le> 57)"

definition keypad :: "string list" where
  "keypad = map (\<lambda>c. [c]) ''123456789'' @ [''backspace'', ''0'', ''enter'']"

definition is_upper :: "char \<Rightarrow> bool" where
  "is_upper c = (65 \<le> (of_char c :: nat) \<and> (of_char c :: nat) \<le> 90)"

fun keyboard_key :: "string \<Rightarrow> bool" where
  "keyboard_key [] = False"
| "keyboard_key [c] = True"
| "keyboard_key (c # cs) = is_upper c"

fun input_event :: "lock_event \<Rightarrow> bool" where
  "input_event (KeyDown key) = keyboard_key key"
| "input_event (Click None) = True"
| "input_event (Click (Some key)) = (key \<in> set keypad)"
| "input_event e = False"

definition buffer_ok :: "lock_ctl \<Rightarrow> bool" where
  "buffer_ok st =
     (list_all is_digit (inputBuffer st) \<and> length (inputBuffer st) \<le> length_c (config st))"

definition lock_key :: "string \<Rightarrow> bool" where
  "lock_key key = (key = ''backspace'' \<or> key = ''enter'' \<or> (\<exists>c. key = [c] \<and> is_digit c))"

text \<open>
  A screen that has been locked: the lock is enabled with PIN 1234 and a timeout of
  five minutes, and a second later the lock button is clicked.
\<close>

definition pin_form :: settings_form where
  "pin_form =
     \<lparr>lockEnabledChecked = True, settingPin = ''1234'', settingPinConfirm = ''1234'',
      pinLengthChecked = 4, settingTimeout = Num 5\<rparr>"

definition locked_screen :: lock_ctl where
  "locked_screen = run [(0, SaveSettings pin_form), (1000, LockButton)] (init initial)"


definition pending :: "lock_cb \<Rightarrow> lock_ctl \<Rightarrow> (nat \<times> nat \<times> lock_cb) list" where
  "pending cb st = filter (\<lambda>t. callback_of t = cb) (timers st)"



definition unlocks :: "lock_ctl \<Rightarrow> nat" where
  "unlocks st = count_list (screenOps st) RemoveActive"

text \<open>
  The inactivity timer. The screen is \<open>monitoring\<close> from \<open>lo\<close> on when it is
  unlocked, the lock is enabled, the activity listeners are attached and exactly one
  timer that locks the screen is pending: the one that \<^verbatim>\<open>timer\<close> names, due at
  \<open>lo\<close> or later and no later than the configured timeout from now.
  \<open>lock_timer_ok\<close> is what holds of that timer on every page after
  \<^verbatim>\<open>init\<close>: the handler of the listeners is bound, a pending timer that locks the
  screen is the one that \<^verbatim>\<open>timer\<close> names, and none is pending while the screen
  is locked.
\<close>

definition monitoring :: "nat \<Rightarrow> lock_ctl \<Rightarrow> bool" where
  "monitoring lo y =
     (\<not> isLocked y \<and> enabled (config y) \<and> listening y
      \<and> map (\<lambda>t. Some (timer_id t)) (pending LockCb y) = [timer y]
      \<and> list_all (\<lambda>t. lo \<le> due t \<and> due t \<le> now y + delay_ms (timeout (config y)))
           (pending LockCb y))"




text \<open>
  The rate limiter. \<open>resets\<close> are the clock values at which the limiter's timer has
  fired, which is when it resets the inactivity timer; they are \<open>spaced\<close> when each
  is at least 1000 ms after the one before. \<open>limiter_ok\<close> is what holds of the
  timer table throughout: the resets are spaced and in the past, ids are positive,
  issued and used once, and a pending timer of the limiter is the one that
  \<^verbatim>\<open>debounceTimer\<close> names and is due at least 1000 ms after every reset.
\<close>

definition resets :: "lock_ctl \<Rightarrow> nat list" where
  "resets st = map fst (filter (\<lambda>f. snd f = ActivityCb) (fired st))"

fun spaced :: "nat list \<Rightarrow> bool" where
  "spaced (x # y # zs) = (x + 1000 \<le> y \<and> spaced (y # zs))"
| "spaced zs = True"

definition limiter_ok :: "lock_ctl \<Rightarrow> bool" where
  "limiter_ok st =
     (spaced (resets st)
      \<and> list_all (\<lambda>r. r \<le> now st) (resets st)
      \<and> distinct (map timer_id (timers st))
      \<and> list_all (\<lambda>t. 0 < timer_id t \<and> timer_id t \<le> issued st) (timers st)
      \<and> list_all (\<lambda>t. callback_of t = ActivityCb \<longrightarrow>
             debounceTimer st = Some (timer_id t)
             \<and> list_all (\<lambda>r. r + 1000 \<le> due t) (resets st)) (timers st))"

section \<open>PostController (js/controllers/PostController.js)\<close>

text \<open>
  A post as the storage backend returns it, and the object that
  \<^verbatim>\<open>saveCurrentPost\<close> hands to \<^verbatim>\<open>StorageManager.savePost\<close>. Dates are ISO strings
  of a clock value and are represented by that value. A post's \<open>plainText\<close> is
  taken to be the text of its \<open>content\<close>, as it was at the save that wrote both.
\<close>

record post =
  post_id :: "string option"
  post_filename :: "string option"
  post_title :: string
  post_content :: string
  post_plainText :: string
  post_createdAt :: "nat option"
  post_isFavorite :: bool

record save_request =
  req_id :: "string option"
  req_title :: string
  req_content :: string
  req_plainText :: string
  req_createdAt :: "nat option"
  req_oldFilename :: "string option"
  req_isFavorite :: bool

datatype bus_event =
    PostDirty bool
  | PostSaving
  | PostSaved post bool
  | PostSaveError string
  | PostCreated "nat option" bool
  | PostLoaded post

text \<open>
  A call of \<^verbatim>\<open>saveCurrentPost\<close> is suspended twice: at
  \<^verbatim>\<open>await StorageManager.savePost(...)\<close>, with the request it has issued, and at
  \<^verbatim>\<open>await this.loadPosts()\<close>, with the post that the backend returned. Both carry
  the call's \<^verbatim>\<open>isAutoSave\<close>.
\<close>

datatype awaiting = AwaitSavePost bool save_request | AwaitLoadPosts bool post

datatype save_result = EmptyPost | Success post | Failure string

datatype post_cb = LaterCb

text \<open>
  The controller's fields; the variable \<^verbatim>\<open>timeout\<close> of the closure that
  \<^verbatim>\<open>Utils.debounce\<close> returns; the suspended calls of \<^verbatim>\<open>saveCurrentPost\<close>, each
  with the number of the call; what the event bus has emitted, oldest first; and the
  parts of the page that the controller reads: the title input's value (if the
  element exists), the editor's \<^verbatim>\<open>innerHTML\<close> and \<^verbatim>\<open>getText()\<close> (if the editor
  exists) and the text of the save status.
\<close>

record post_ctl = "post_cb browser" +
  currentPostId :: "string option"
  currentFilename :: "string option"
  currentPostCreatedAt :: "nat option"
  currentIsFavorite :: bool
  isDirty :: bool
  posts :: "post list"
  debounce_timeout :: "nat option"
  suspended :: "(nat \<times> awaiting) list"
  calls :: nat
  emitted :: "bus_event list"
  titleInput :: "string option"
  quill :: "(string \<times> string) option"
  saveStatus :: string

text \<open>
  \<^verbatim>\<open>String.prototype.trim\<close> removes white space and line terminators; among the
  code units below 256 these are tab, line feed, vertical tab, form feed, carriage
  return, space and the no-break space.
\<close>

definition is_space :: "char \<Rightarrow> bool" where
  "is_space c = ((of_char c :: nat) \<in> {9, 10, 11, 12, 13, 32, 160})"

definition trim :: "string \<Rightarrow> string" where
  "trim s = rev (dropWhile is_space (rev (dropWhile is_space s)))"

text \<open>\<^verbatim>\<open>a || b\<close> on strings: the empty string is falsy.\<close>

definition js_or :: "string \<Rightarrow> string \<Rightarrow> string" where
  "js_or a b = (if a \<noteq> [] then a else b)"

definition getContent :: "post_ctl \<Rightarrow> string" where
  "getContent st = (case quill st of None \<Rightarrow> [] | Some q \<Rightarrow> fst q)"

definition getPlainText :: "post_ctl \<Rightarrow> string" where
  "getPlainText st = (case quill st of None \<Rightarrow> [] | Some q \<Rightarrow> trim (snd q))"

text \<open>
  The subscribers of the bus are those of \<^verbatim>\<open>UIController.setupEventBusListeners\<close>;
  of what they do, the writes to the title input and to the save status are kept.
\<close>

definition ui_listener :: "bus_event \<Rightarrow> post_ctl \<Rightarrow> post_ctl" where
  "ui_listener e st =
     (case e of
        PostCreated created silent \<Rightarrow>
          (case titleInput st of
             None \<Rightarrow> st
           | Some v \<Rightarrow> st\<lparr>titleInput := Some [], saveStatus := []\<rparr>)
      | PostLoaded p \<Rightarrow>
          (case titleInput st of
             None \<Rightarrow> st
           | Some v \<Rightarrow> st\<lparr>titleInput := Some (post_title p), saveStatus := []\<rparr>)
      | PostDirty d \<Rightarrow> if d then st\<lparr>saveStatus := ''Unsaved changes...''\<rparr> else st
      | PostSaving \<Rightarrow> st\<lparr>saveStatus := ''Saving...''\<rparr>
      | PostSaved p isAutoSave \<Rightarrow>
          if isAutoSave then st\<lparr>saveStatus := ''All changes saved''\<rparr>
          else st\<lparr>saveStatus := []\<rparr>
      | PostSaveError err \<Rightarrow> st)"

definition emit :: "bus_event \<Rightarrow> post_ctl \<Rightarrow> post_ctl" where
  "emit e st = ui_listener e (st\<lparr>emitted := emitted st @ [e]\<rparr>)"

definition setDirty :: "bool \<Rightarrow> post_ctl \<Rightarrow> post_ctl" where
  "setDirty d st = emit (PostDirty d) (st\<lparr>isDirty := d\<rparr>)"

definition createNewPost :: "bool \<Rightarrow> post_ctl \<Rightarrow> post_ctl" where
  "createNewPost silent st =
     (let st1 = st\<lparr>currentPostId := None, currentFilename := None,
                    currentIsFavorite := False, currentPostCreatedAt := Some (now st)\<rparr>;
          st2 = (case quill st1 of None \<Rightarrow> st1 | Some q \<Rightarrow> st1\<lparr>quill := Some ([], [])\<rparr>);
          st3 = setDirty False st2
      in emit (PostCreated (currentPostCreatedAt st3) silent) st3)"

definition loadPost :: "post option \<Rightarrow> post_ctl \<Rightarrow> bool \<times> post_ctl" where
  "loadPost arg st =
     (case arg of
        None \<Rightarrow> (False, st)
      | Some p \<Rightarrow>
          (let st1 = st\<lparr>currentPostId := post_id p, currentFilename := post_filename p,
                         currentPostCreatedAt := post_createdAt p,
                         currentIsFavorite := post_isFavorite p\<rparr>;
               st2 = (case quill st1 of
                        None \<Rightarrow> st1
                      | Some q \<Rightarrow> st1\<lparr>quill := Some (post_content p, post_plainText p)\<rparr>);
               st3 = setDirty False st2
           in (True, emit (PostLoaded p) st3)))"

text \<open>
  The title that \<^verbatim>\<open>saveCurrentPost\<close> uses:
  \<^verbatim>\<open>titleOverride || (titleInput ? titleInput.value.trim() : '') || 'Untitled Post'\<close>.
\<close>

definition save_title :: "string option \<Rightarrow> post_ctl \<Rightarrow> string" where
  "save_title titleOverride st =
     js_or (case titleOverride of None \<Rightarrow> [] | Some t \<Rightarrow> t)
       (js_or (case titleInput st of None \<Rightarrow> [] | Some v \<Rightarrow> trim v) ''Untitled Post'')"

text \<open>
  \<^verbatim>\<open>saveCurrentPost\<close> up to its first \<^verbatim>\<open>await\<close>: it returns at once with
  \<^verbatim>\<open>{success: false, error: 'Empty post'}\<close>, or it calls the backend and is
  suspended (no result yet).
\<close>

definition saveCurrentPost ::
  "bool \<Rightarrow> string option \<Rightarrow> post_ctl \<Rightarrow> save_result option \<times> post_ctl" where
  "saveCurrentPost isAutoSave titleOverride st =
     (let title = save_title titleOverride st;
          content = getContent st;
          plainText = getPlainText st
      in if plainText = [] \<and> title = [] \<and> \<not> isAutoSave then (Some EmptyPost, st)
         else
           (let st1 = (if isAutoSave then emit PostSaving st else st);
                request = \<lparr>req_id = currentPostId st1, req_title = title,
                           req_content = content, req_plainText = plainText,
                           req_createdAt = currentPostCreatedAt st1,
                           req_oldFilename = currentFilename st1,
                           req_isFavorite = currentIsFavorite st1\<rparr>
            in (None,
                st1\<lparr>suspended := suspended st1 @ [(Suc (calls st1), AwaitSavePost isAutoSave request)],
                    calls := Suc (calls st1)\<rparr>)))"

text \<open>
  The rest of \<^verbatim>\<open>saveCurrentPost\<close>, resumed by the backend: \<^verbatim>\<open>savePost\<close> resolves
  with a post or rejects with an error, and \<^verbatim>\<open>loadPosts\<close> resolves with the list
  of posts (\<^verbatim>\<open>getAllPosts\<close> catches its errors and never rejects). An answer for a
  call that is not suspended at that point changes nothing.
\<close>

definition truthy_name :: "string option \<Rightarrow> bool" where
  "truthy_name f = (case f of None \<Rightarrow> False | Some n \<Rightarrow> n \<noteq> [])"

definition savePost_resolved :: "nat \<Rightarrow> post \<Rightarrow> post_ctl \<Rightarrow> post_ctl" where
  "savePost_resolved k p st =
     (case map_of (suspended st) k of
        Some (AwaitSavePost isAutoSave request) \<Rightarrow>
          st\<lparr>currentPostId := post_id p, currentFilename := post_filename p,
              currentIsFavorite := post_isFavorite p,
              currentPostCreatedAt := post_createdAt p,
              suspended := map (\<lambda>c. if fst c = k then (k, AwaitLoadPosts isAutoSave p) else c)
                             (suspended st)\<rparr>
      | _ \<Rightarrow> st)"

definition savePost_rejected :: "nat \<Rightarrow> string \<Rightarrow> post_ctl \<Rightarrow> save_result option \<times> post_ctl" where
  "savePost_rejected k err st =
     (case map_of (suspended st) k of
        Some (AwaitSavePost isAutoSave request) \<Rightarrow>
          (Some (Failure err),
           emit (PostSaveError err)
             (st\<lparr>suspended := filter (\<lambda>c. fst c \<noteq> k) (suspended st)\<rparr>))
      | _ \<Rightarrow> (None, st))"

definition loadPosts_resolved :: "nat \<Rightarrow> post list \<Rightarrow> post_ctl \<Rightarrow> save_result option \<times> post_ctl" where
  "loadPosts_resolved k ps st =
     (case map_of (suspended st) k of
        Some (AwaitLoadPosts isAutoSave p) \<Rightarrow>
          (let st1 = st\<lparr>posts := filter (\<lambda>q. truthy_name (post_filename q)) ps,
                         suspended := filter (\<lambda>c. fst c \<noteq> k) (suspended st)\<rparr>;
               st2 = setDirty False st1
           in (Some (Success p), emit (PostSaved p isAutoSave) st2))
      | _ \<Rightarrow> (None, st))"

text \<open>
  \<^verbatim>\<open>Utils.debounce\<close> (js/utils.js) applied to the function that \<^verbatim>\<open>init\<close> passes,
  with the wait that it passes: \<^verbatim>\<open>executedFunction\<close> is \<^verbatim>\<open>debouncedSave\<close>, and
  \<^verbatim>\<open>later\<close> is the callback of its timer.
\<close>

definition func :: "post_ctl \<Rightarrow> post_ctl" where
  "func st = (if isDirty st then snd (saveCurrentPost True None st) else st)"

definition later :: "post_ctl \<Rightarrow> post_ctl" where
  "later st = func (clearTimeout (debounce_timeout st) st)"

definition executedFunction :: "nat \<Rightarrow> post_ctl \<Rightarrow> post_ctl" where
  "executedFunction wait st =
     (let r = setTimeout LaterCb wait (clearTimeout (debounce_timeout st) st)
      in (snd r)\<lparr>debounce_timeout := Some (fst r)\<rparr>)"

definition debouncedSave :: "post_ctl \<Rightarrow> post_ctl" where
  "debouncedSave st = executedFunction 2000 st"

text \<open>
  The listeners: the editor's \<^verbatim>\<open>text-change\<close> (registered by \<^verbatim>\<open>init\<close> if the
  editor exists; the event arrives with the editor's new content), the title's
  \<^verbatim>\<open>input\<close> and \<^verbatim>\<open>UIController.handleSave\<close> (js/controllers/UIController.js), whose
  read of the title input's value throws when the element is missing.
\<close>

definition on_text_change :: "string \<Rightarrow> string \<Rightarrow> string \<Rightarrow> post_ctl \<Rightarrow> post_ctl" where
  "on_text_change source html text st =
     (case quill st of
        None \<Rightarrow> st
      | Some q \<Rightarrow>
          (let st1 = st\<lparr>quill := Some (html, text)\<rparr>
           in if source = ''user'' then debouncedSave (setDirty True st1) else st1))"

definition on_title_input :: "string \<Rightarrow> post_ctl \<Rightarrow> post_ctl" where
  "on_title_input v st =
     (case titleInput st of
        None \<Rightarrow> st
      | Some old \<Rightarrow> debouncedSave (setDirty True (st\<lparr>titleInput := Some v\<rparr>)))"

definition handleSave :: "post_ctl \<Rightarrow> post_ctl" where
  "handleSave st =
     (case titleInput st of
        None \<Rightarrow> st
      | Some v \<Rightarrow> snd (saveCurrentPost False (Some (js_or (trim v) ''Untitled Post'')) st))"

definition post_fire :: "nat \<times> nat \<times> post_cb \<Rightarrow> post_ctl \<Rightarrow> post_ctl" where
  "post_fire t st =
     (case callback_of t of
        LaterCb \<Rightarrow>
          later (st\<lparr>timers := remove1 t (timers st), now := max (now st) (due t),
                    fired := fired st @ [(max (now st) (due t), callback_of t)]\<rparr>))"

function post_run_until :: "nat \<Rightarrow> post_ctl \<Rightarrow> post_ctl" where
  "post_run_until T st =
     (case earliest (timers st) of
        None \<Rightarrow> st\<lparr>now := max (now st) T\<rparr>
      | Some t \<Rightarrow>
          if due t \<le> T then post_run_until T (post_fire t st)
          else st\<lparr>now := max (now st) T\<rparr>)"
  by pat_completeness auto

lemma timers_saveCurrentPost: "timers (snd (saveCurrentPost a t st)) = timers st"
  by (simp add: saveCurrentPost_def Let_def emit_def ui_listener_def)

lemma length_timers_post_fire:
  assumes "t \<in> set (timers st)"
  shows "length (timers (post_fire t st)) < length (timers st)"
proof -
  let ?s = "st\<lparr>timers := remove1 t (timers st), now := max (now st) (due t),
                fired := fired st @ [(max (now st) (due t), callback_of t)]\<rparr>"
  have "length (timers (later ?s)) \<le> length (timers ?s)"
    by (simp add: later_def func_def timers_saveCurrentPost clearTimeout_def)
  moreover have "length (timers ?s) < length (timers st)"
    using assms by (simp add: length_remove1) (cases "timers st"; simp)
  ultimately show ?thesis
    by (cases "callback_of t") (simp add: post_fire_def)
qed

termination post_run_until
  by (relation "measure (\<lambda>(T, st). length (timers st))")
     (auto simp: length_timers_post_fire earliest_mem)

declare post_run_until.simps [simp del]

datatype post_event =
    TextChange string string string
  | TitleInput string
  | SaveClick
  | NewPostClick
  | OpenPost "post option"
  | SavePostResolved nat post
  | SavePostRejected nat string
  | GetAllPostsResolved nat "post list"

definition post_dispatch :: "post_event \<Rightarrow> post_ctl \<Rightarrow> post_ctl" where
  "post_dispatch e st =
     (case e of
        TextChange source html text \<Rightarrow> on_text_change source html text st
      | TitleInput v \<Rightarrow> on_title_input v st
      | SaveClick \<Rightarrow> handleSave st
      | NewPostClick \<Rightarrow> createNewPost False st
      | OpenPost p \<Rightarrow> snd (loadPost p st)
      | SavePostResolved k p \<Rightarrow> savePost_resolved k p st
      | SavePostRejected k err \<Rightarrow> snd (savePost_rejected k err st)
      | GetAllPostsResolved k ps \<Rightarrow> snd (loadPosts_resolved k ps st))"

fun post_run :: "(nat \<times> post_event) list \<Rightarrow> post_ctl \<Rightarrow> post_ctl" where
  "post_run [] st = st"
| "post_run (e # es) st = post_run es (post_dispatch (snd e) (post_run_until (fst e) st))"

text \<open>The controller as the module declares it, on a page with a title input and an editor.\<close>

definition post_initial :: post_ctl where
  "post_initial =
     \<lparr>timers = [], issued = 0, now = 0, fired = [],
      currentPostId = None, currentFilename = None, currentPostCreatedAt = None,
      currentIsFavorite = False, isDirty = False, posts = [],
      debounce_timeout = None, suspended = [], calls = 0, emitted = [],
      titleInput = Some [], quill = Some ([], []), saveStatus = []\<rparr>"

text \<open>
  Of \<^verbatim>\<open>PostController.init\<close>, the registration of the listener and the making of
  \<^verbatim>\<open>debouncedSave\<close> are in the definitions above; what is left is the timestamp.
\<close>

definition post_init :: "post_ctl \<Rightarrow> post_ctl" where
  "post_init st = st\<lparr>currentPostCreatedAt := Some (now st)\<rparr>"


subsection \<open>Notions used in the statements about saving\<close>

text \<open>The request that a call of \<^verbatim>\<open>saveCurrentPost\<close> builds in a given state.\<close>

definition request_of :: "string option \<Rightarrow> post_ctl \<Rightarrow> save_request" where
  "request_of titleOverride st =
     \<lparr>req_id = currentPostId st, req_title = save_title titleOverride st,
      req_content = getContent st, req_plainText = getPlainText st,
      req_createdAt = currentPostCreatedAt st, req_oldFilename = currentFilename st,
      req_isFavorite = currentIsFavorite st\<rparr>"

text \<open>The calls of \<^verbatim>\<open>savePost\<close> that the backend has not answered yet.\<close>

fun awaits_save :: "awaiting \<Rightarrow> bool" where
  "awaits_save (AwaitSavePost isAutoSave request) = True"
| "awaits_save (AwaitLoadPosts isAutoSave p) = False"

definition in_flight :: "post_ctl \<Rightarrow> (nat \<times> awaiting) list" where
  "in_flight st = filter (\<lambda>c. awaits_save (snd c)) (suspended st)"

text \<open>
  An edit notification is an event that marks the document dirty and calls
  \<^verbatim>\<open>debouncedSave\<close>: a change of the text by the user, or an input in the title.
  \<open>burst p l es\<close> says of the events \<open>es\<close>, which follow an edit at \<open>l\<close> and an
  event at \<open>p\<close>, that they come in the order of their times and that each of them
  comes less than 2000 ms after the edit before it; \<open>last_edit l es\<close> is the time
  of the last edit.
\<close>

fun is_edit :: "post_event \<Rightarrow> bool" where
  "is_edit (TextChange source html text) = (source = ''user'')"
| "is_edit (TitleInput v) = True"
| "is_edit e = False"

fun burst :: "nat \<Rightarrow> nat \<Rightarrow> (nat \<times> post_event) list \<Rightarrow> bool" where
  "burst p l [] = True"
| "burst p l (e # es) =
     (p \<le> fst e \<and> fst e < l + 2000 \<and> burst (fst e) (if is_edit (snd e) then fst e else l) es)"

fun last_edit :: "nat \<Rightarrow> (nat \<times> post_event) list \<Rightarrow> nat" where
  "last_edit l [] = l"
| "last_edit l (e # es) = last_edit (if is_edit (snd e) then fst e else l) es"

text \<open>
  The debounce timer is pending and due at \<open>d\<close>, it is the only timer, and the page
  has its title input and its editor.
\<close>

definition armed :: "nat \<Rightarrow> post_ctl \<Rightarrow> bool" where
  "armed d st =
     (timers st = [(issued st, d, LaterCb)] \<and> debounce_timeout st = Some (issued st)
      \<and> titleInput st \<noteq> None \<and> quill st \<noteq> None)"

text \<open>
  What holds of the controller on a page with a title input and an editor, whatever
  happens: every pending timer is the one that the closure's variable names.
\<close>

definition post_ok :: "post_ctl \<Rightarrow> bool" where
  "post_ok st =
     (list_all (\<lambda>t. Some (timer_id t) = debounce_timeout st) (timers st)
      \<and> titleInput st \<noteq> None \<and> quill st \<noteq> None)"

text \<open>
  A state in which an autosave is in flight and the next debounce window is open:
  the user types a title, and types again 2100 ms later.
\<close>

definition saving_and_edited :: post_ctl where
  "saving_and_edited = post_run [(0, TitleInput ''a''), (2100, TitleInput ''ab'')] post_initial"

text \<open>
  A state in which an autosave is in flight: on the page just loaded the user types
  a title, and 2000 ms pass.
\<close>

definition autosaving :: post_ctl where
  "autosaving = post_run_until 2000 (post_run [(0, TitleInput ''a'')] post_initial)"

text \<open>A post as a backend returns it after the first save of a document.\<close>

definition stored_post :: post where
  "stored_post =
     \<lparr>post_id = Some ''k1'', post_filename = Some ''2026-01-21_1200_a.json'',
      post_title = ''a'', post_content = [], post_plainText = [],
      post_createdAt = Some 0, post_isFavorite = False\<rparr>"

section \<open>Saving a post\<close>

lemma save_title_nonempty: "save_title titleOverride st \<noteq> []"
  by (simp add: save_title_def js_or_def)

text \<open>
  Claim C10. The branch of \<^verbatim>\<open>saveCurrentPost\<close> that returns
  \<^verbatim>\<open>{success: false, error: 'Empty post'}\<close> is never taken: the title falls back
  to \<^verbatim>\<open>'Untitled Post'\<close> and so is never empty, the call never returns the
  rejection, and a manual save, also of a document with no text and no title, issues
  its request to the backend.
\<close>

theorem empty_post_branch_unreachable:
  "save_title titleOverride st \<noteq> []
   \<and> fst (saveCurrentPost isAutoSave titleOverride st) \<noteq> Some EmptyPost
   \<and> suspended (snd (saveCurrentPost False titleOverride st)) =
       suspended st @
       [(Suc (calls st),
         AwaitSavePost False
           \<lparr>req_id = currentPostId st, req_title = save_title titleOverride st,
            req_content = getContent st, req_plainText = getPlainText st,
            req_createdAt = currentPostCreatedAt st, req_oldFilename = currentFilename st,
            req_isFavorite = currentIsFavorite st\<rparr>)]"
  by (simp add: saveCurrentPost_def Let_def save_title_nonempty)

theorem empty_post_branch_unreachable_witness:
  "fst (saveCurrentPost False None post_initial) \<noteq> Some EmptyPost
   \<and> suspended (snd (saveCurrentPost False None post_initial)) =
       [(1, AwaitSavePost False
              \<lparr>req_id = None, req_title = ''Untitled Post'', req_content = [],
               req_plainText = [], req_createdAt = None, req_oldFilename = None,
               req_isFavorite = False\<rparr>)]"
  using empty_post_branch_unreachable [of None post_initial False]
  by (simp add: post_initial_def save_title_def js_or_def trim_def getContent_def
      getPlainText_def)


subsection \<open>The debounce timer\<close>

lemma post_run_until_idle:
  "timers st = [] \<Longrightarrow> post_run_until T st = st\<lparr>now := max (now st) T\<rparr>"
  by (subst post_run_until.simps) simp

lemma post_run_until_early:
  "timers st = [t] \<Longrightarrow> T < due t \<Longrightarrow> post_run_until T st = st\<lparr>now := max (now st) T\<rparr>"
  by (subst post_run_until.simps) simp

lemma post_run_until_due:
  "timers st = [t] \<Longrightarrow> due t \<le> T \<Longrightarrow> post_run_until T st = post_run_until T (post_fire t st)"
  by (subst post_run_until.simps) simp

lemma frame_non_edit:
  assumes "\<not> is_edit e"
  shows "timers (post_dispatch e st) = timers st
       \<and> issued (post_dispatch e st) = issued st
       \<and> now (post_dispatch e st) = now st
       \<and> fired (post_dispatch e st) = fired st
       \<and> debounce_timeout (post_dispatch e st) = debounce_timeout st
       \<and> (titleInput st \<noteq> None \<longrightarrow> titleInput (post_dispatch e st) \<noteq> None)
       \<and> (quill st \<noteq> None \<longrightarrow> quill (post_dispatch e st) \<noteq> None)"
proof (cases e)
  case (TextChange src h x)
  then show ?thesis using assms
    by (simp add: post_dispatch_def on_text_change_def split: option.splits)
next
  case (TitleInput v)
  then show ?thesis using assms by simp
next
  case SaveClick
  then show ?thesis
    by (simp add: post_dispatch_def handleSave_def saveCurrentPost_def Let_def split: option.splits)
next
  case NewPostClick
  then show ?thesis
    by (simp add: post_dispatch_def createNewPost_def setDirty_def emit_def ui_listener_def Let_def
        split: option.splits)
next
  case (OpenPost p)
  then show ?thesis
    by (simp add: post_dispatch_def loadPost_def setDirty_def emit_def ui_listener_def Let_def
        split: option.splits)
next
  case (SavePostResolved k p)
  then show ?thesis
    by (simp add: post_dispatch_def savePost_resolved_def split: option.splits awaiting.splits)
next
  case (SavePostRejected k err)
  then show ?thesis
    by (simp add: post_dispatch_def savePost_rejected_def emit_def ui_listener_def
        split: option.splits awaiting.splits)
next
  case (GetAllPostsResolved k ps)
  then show ?thesis
    by (simp add: post_dispatch_def loadPosts_resolved_def setDirty_def emit_def ui_listener_def
        Let_def split: option.splits awaiting.splits)
qed

lemma edit_arms:
  assumes "is_edit e" "titleInput st \<noteq> None" "quill st \<noteq> None"
    and "\<forall>t\<in>set (timers st). Some (timer_id t) = debounce_timeout st"
  shows "armed (now st + 2000) (post_dispatch e st)
       \<and> now (post_dispatch e st) = now st
       \<and> fired (post_dispatch e st) = fired st
       \<and> isDirty (post_dispatch e st)
       \<and> suspended (post_dispatch e st) = suspended st
       \<and> calls (post_dispatch e st) = calls st"
proof -
  have clr: "filter (\<lambda>t. Some (timer_id t) \<noteq> debounce_timeout st) (timers st) = []"
    using assms(4) by (simp add: filter_empty_conv)
  show ?thesis
  proof (cases e)
    case (TextChange src h x)
    then show ?thesis using assms clr
      by (auto simp: post_dispatch_def on_text_change_def debouncedSave_def executedFunction_def
          setTimeout_def clearTimeout_def setDirty_def emit_def ui_listener_def armed_def Let_def)
  next
    case (TitleInput v)
    then show ?thesis using assms clr
      by (auto simp: post_dispatch_def on_title_input_def debouncedSave_def executedFunction_def
          setTimeout_def clearTimeout_def setDirty_def emit_def ui_listener_def armed_def Let_def)
  qed (use assms in simp_all)
qed

lemma armed_wf: "armed d st \<Longrightarrow> \<forall>t\<in>set (timers st). Some (timer_id t) = debounce_timeout st"
  by (simp add: armed_def timer_id_def)

lemma armed_wait:
  assumes "armed d st" "T < d"
  shows "post_run_until T st = st\<lparr>now := max (now st) T\<rparr>"
  using assms by (intro post_run_until_early[where t = "(issued st, d, LaterCb)"])
    (simp_all add: armed_def due_def)

lemma armed_now: "armed d st \<Longrightarrow> armed d (st\<lparr>now := n\<rparr>)"
  by (simp add: armed_def)

lemma burst_inv:
  assumes "armed (l + 2000) st" "now st \<le> p" "p < l + 2000" "burst p l es"
  shows "armed (last_edit l es + 2000) (post_run es st)
       \<and> fired (post_run es st) = fired st
       \<and> now (post_run es st) < last_edit l es + 2000"
  using assms
proof (induction es arbitrary: st p l)
  case Nil
  then show ?case by simp
next
  case (Cons e es)
  let ?t = "fst e"
  let ?a = "st\<lparr>now := ?t\<rparr>"
  from Cons.prems have t: "p \<le> ?t" "?t < l + 2000"
    and rest: "burst ?t (if is_edit (snd e) then ?t else l) es" by simp_all
  have s1: "post_run_until ?t st = ?a"
    using armed_wait[OF Cons.prems(1) t(2)] Cons.prems(2) t(1) by (simp add: max_def)
  have a1: "armed (l + 2000) ?a" using Cons.prems(1) by (rule armed_now)
  show ?case
  proof (cases "is_edit (snd e)")
    case True
    have "armed (?t + 2000) (post_dispatch (snd e) ?a)
        \<and> now (post_dispatch (snd e) ?a) = ?t
        \<and> fired (post_dispatch (snd e) ?a) = fired st"
      using edit_arms[OF True, of ?a] a1 armed_wf[OF a1] by (simp add: armed_def)
    then show ?thesis
      using Cons.IH[of ?t "post_dispatch (snd e) ?a" ?t] rest True s1 by simp
  next
    case False
    have "armed (l + 2000) (post_dispatch (snd e) ?a)
        \<and> now (post_dispatch (snd e) ?a) = ?t
        \<and> fired (post_dispatch (snd e) ?a) = fired st"
      using frame_non_edit[OF False, of ?a] a1 by (simp add: armed_def)
    then show ?thesis
      using Cons.IH[of l "post_dispatch (snd e) ?a" ?t] rest False s1 t by simp
  qed
qed

lemma armed_fire:
  assumes "armed d st" "now st \<le> d" "d \<le> T"
  shows "post_run_until T st =
         (func (st\<lparr>timers := [], now := d, fired := fired st @ [(d, LaterCb)]\<rparr>))\<lparr>now := T\<rparr>"
proof -
  let ?t = "(issued st, d, LaterCb)"
  let ?r = "st\<lparr>timers := [], now := d, fired := fired st @ [(d, LaterCb)]\<rparr>"
  have tm: "timers st = [?t]" using assms(1) by (simp add: armed_def)
  have "clearTimeout (debounce_timeout st)
          (st\<lparr>timers := remove1 ?t (timers st), now := max (now st) (due ?t),
              fired := fired st @ [(max (now st) (due ?t), callback_of ?t)]\<rparr>) = ?r"
    using assms(2) tm by (simp add: clearTimeout_def callback_of_def due_def max_def)
  then have fire: "post_fire ?t st = func ?r"
    by (simp add: post_fire_def later_def callback_of_def)
  have idle: "timers (func ?r) = []" and nw: "now (func ?r) = d"
    by (simp_all add: func_def saveCurrentPost_def Let_def emit_def ui_listener_def)
  have "post_run_until T st = post_run_until T (post_fire ?t st)"
    using tm assms(3) by (intro post_run_until_due) (simp_all add: due_def)
  also have "\<dots> = (func ?r)\<lparr>now := max (now (func ?r)) T\<rparr>"
    unfolding fire using idle by (rule post_run_until_idle)
  finally show ?thesis using nw assms(3) by (simp add: max_def)
qed

lemma edit_then_wait:
  assumes "is_edit e" "titleInput st \<noteq> None" "quill st \<noteq> None"
    and "\<forall>t\<in>set (timers st). Some (timer_id t) = debounce_timeout st"
  shows "suspended (post_run_until (now st + 2000) (post_dispatch e st)) =
           suspended st @
           [(Suc (calls st), AwaitSavePost True (request_of None (post_dispatch e st)))]
       \<and> fired (post_run_until (now st + 2000) (post_dispatch e st)) =
           fired st @ [(now st + 2000, LaterCb)]"
proof -
  let ?b = "post_dispatch e st"
  have a: "armed (now st + 2000) ?b" "now ?b = now st" "fired ?b = fired st" "isDirty ?b"
    "suspended ?b = suspended st" "calls ?b = calls st"
    using edit_arms[OF assms] by simp_all
  have "post_run_until (now st + 2000) ?b =
      (func (?b\<lparr>timers := [], now := now st + 2000,
                 fired := fired ?b @ [(now st + 2000, LaterCb)]\<rparr>))\<lparr>now := now st + 2000\<rparr>"
    using armed_fire[OF a(1), of "now st + 2000"] a(2) by simp
  then show ?thesis using a
    by (simp add: func_def saveCurrentPost_def Let_def emit_def ui_listener_def request_of_def
        save_title_def getContent_def getPlainText_def)
qed


text \<open>
  Claim C3. A sequence of edit notifications, each less than 2000 ms after the one
  before it, starts with no timer pending; other events (manual saves, answers of
  the backend, a new or opened post) may come between the edits and up to 2000 ms
  after the last of them. No timer fires during the sequence, none fires before
  2000 ms have passed since the last edit, and then the debounced function runs
  exactly once, at that moment: it calls the backend with an autosave request if the
  document is dirty, and does nothing if it is not.
\<close>

theorem autosave_after_burst:
  assumes "timers st = []" "titleInput st \<noteq> None" "quill st \<noteq> None"
    and "now st \<le> t" "is_edit e" "burst t t es"
  shows "fired (post_run ((t, e) # es) st) = fired st
    \<and> (T < last_edit t es + 2000 \<longrightarrow>
         post_run_until T (post_run ((t, e) # es) st) =
         (post_run ((t, e) # es) st)\<lparr>now := max (now (post_run ((t, e) # es) st)) T\<rparr>)
    \<and> (last_edit t es + 2000 \<le> T \<longrightarrow>
         fired (post_run_until T (post_run ((t, e) # es) st)) =
           fired st @ [(last_edit t es + 2000, LaterCb)]
         \<and> suspended (post_run_until T (post_run ((t, e) # es) st)) =
             suspended (post_run ((t, e) # es) st) @
             (if isDirty (post_run ((t, e) # es) st)
              then [(Suc (calls (post_run ((t, e) # es) st)),
                     AwaitSavePost True (request_of None (post_run ((t, e) # es) st)))]
              else []))"
proof -
  let ?a = "st\<lparr>now := t\<rparr>"
  let ?b = "post_dispatch e ?a"
  let ?r = "post_run ((t, e) # es) st"
  let ?L = "last_edit t es"
  have r0: "post_run_until t st = ?a"
    using post_run_until_idle[OF assms(1), of t] assms(4) by (simp add: max_def)
  have a1: "armed (t + 2000) ?b \<and> now ?b = t \<and> fired ?b = fired st"
    using edit_arms[OF assms(5), of ?a] assms(1,2,3) by simp
  have s: "?r = post_run es ?b" using r0 by simp
  have inv: "armed (?L + 2000) ?r \<and> fired ?r = fired st \<and> now ?r < ?L + 2000"
    unfolding s using burst_inv[of t ?b t es] a1 assms(6) by simp
  have early: "T < ?L + 2000 \<longrightarrow> post_run_until T ?r = ?r\<lparr>now := max (now ?r) T\<rparr>"
    using inv armed_wait by blast
  have late: "post_run_until T ?r =
      (func (?r\<lparr>timers := [], now := ?L + 2000, fired := fired ?r @ [(?L + 2000, LaterCb)]\<rparr>))\<lparr>now := T\<rparr>"
    if "?L + 2000 \<le> T"
    using armed_fire[of "?L + 2000" ?r T] inv that by simp
  have "fired (post_run_until T ?r) = fired st @ [(?L + 2000, LaterCb)]
       \<and> suspended (post_run_until T ?r) =
             suspended ?r @
             (if isDirty ?r
              then [(Suc (calls ?r), AwaitSavePost True (request_of None ?r))]
              else [])" if "?L + 2000 \<le> T"
    unfolding late[OF that] using inv
    by (simp add: func_def saveCurrentPost_def Let_def emit_def ui_listener_def request_of_def
        save_title_def getContent_def getPlainText_def save_title_nonempty)
  then show ?thesis using inv early by blast
qed

theorem autosave_after_burst_witness:
  "timers post_initial = [] \<and> titleInput post_initial \<noteq> None \<and> quill post_initial \<noteq> None
   \<and> now post_initial \<le> 0 \<and> is_edit (TitleInput ''a'')
   \<and> burst 0 0 [(500, TitleInput ''ab'')]
   \<and> last_edit 0 [(500, TitleInput ''ab'')] = 500
   \<and> fired (post_run_until 2499
        (post_run [(0, TitleInput ''a''), (500, TitleInput ''ab'')] post_initial)) = []
   \<and> fired (post_run_until 2500
        (post_run [(0, TitleInput ''a''), (500, TitleInput ''ab'')] post_initial)) =
       [(2500, LaterCb)]
   \<and> map fst (suspended (post_run_until 2500
        (post_run [(0, TitleInput ''a''), (500, TitleInput ''ab'')] post_initial))) = [1]"
proof -
  have h: "timers post_initial = []" "titleInput post_initial \<noteq> None"
    "quill post_initial \<noteq> None" "now post_initial \<le> 0" "is_edit (TitleInput ''a'')"
    "burst 0 0 [(500, TitleInput ''ab'')]"
    by (simp_all add: post_initial_def)
  have d: "isDirty (post_run [(0, TitleInput ''a''), (500, TitleInput ''ab'')] post_initial)"
    "suspended (post_run [(0, TitleInput ''a''), (500, TitleInput ''ab'')] post_initial) = []"
    "calls (post_run [(0, TitleInput ''a''), (500, TitleInput ''ab'')] post_initial) = 0"
    "fired post_initial = []"
    by code_simp+
  show ?thesis
    using h d autosave_after_burst [OF h, of 2499] autosave_after_burst [OF h, of 2500]
    by simp
qed


lemma post_ok_dispatch: "post_ok st \<Longrightarrow> post_ok (post_dispatch e st)"
proof (cases "is_edit e")
  case True
  assume "post_ok st"
  then show ?thesis
    using edit_arms[OF True, of st] armed_wf[of "now st + 2000" "post_dispatch e st"]
    by (simp add: post_ok_def list_all_iff armed_def)
next
  case False
  assume "post_ok st"
  then show ?thesis
    using frame_non_edit[OF False, of st] by (simp add: post_ok_def)
qed

lemma post_ok_fire: "post_ok st \<Longrightarrow> post_ok (post_fire t st)"
proof -
  assume a: "post_ok st"
  let ?p = "st\<lparr>timers := remove1 t (timers st), now := max (now st) (due t),
                fired := fired st @ [(max (now st) (due t), callback_of t)]\<rparr>"
  have "set (remove1 t (timers st)) \<subseteq> set (timers st)" by (rule set_remove1_subset)
  then have "post_ok (clearTimeout (debounce_timeout ?p) ?p)"
    using a by (auto simp: post_ok_def clearTimeout_def list_all_iff)
  then have "post_ok (later ?p)"
    by (simp add: later_def func_def saveCurrentPost_def Let_def emit_def ui_listener_def
        post_ok_def)
  then show ?thesis by (cases "callback_of t") (simp add: post_fire_def)
qed

lemma post_ok_run_until: "post_ok st \<Longrightarrow> post_ok (post_run_until T st)"
proof (induction T st rule: post_run_until.induct)
  case (1 T st)
  have n: "post_ok (st\<lparr>now := max (now st) T\<rparr>)" using "1.prems" by (simp add: post_ok_def)
  show ?case
  proof (cases "earliest (timers st)")
    case None
    then show ?thesis using n by (subst post_run_until.simps) simp
  next
    case (Some t)
    show ?thesis
    proof (cases "due t \<le> T")
      case True
      then show ?thesis
        using "1.IH"[OF Some True] post_ok_fire[OF "1.prems", of t] Some
        by (subst post_run_until.simps) simp
    next
      case False
      then show ?thesis using n Some by (subst post_run_until.simps) simp
    qed
  qed
qed

lemma post_ok_run: "post_ok st \<Longrightarrow> post_ok (post_run es st)"
  by (induction es arbitrary: st) (simp_all add: post_ok_run_until post_ok_dispatch)

lemma post_ok_initial: "post_ok post_initial"
  by (simp add: post_ok_def post_initial_def)

text \<open>
  Claim C7. In any state that the page can reach, when the backend rejects a save,
  \<^verbatim>\<open>saveCurrentPost\<close> returns the failure, the dirty flag keeps its value (a
  dirty document stays dirty), \<^verbatim>\<open>post:saveError\<close> is emitted with the error, the
  current post's id, filename and creation time are unchanged, and the failed call
  leaves the controller: no timer is set and no call of the backend is made. The
  next edit starts a debounce window, and when its 2000 ms have passed the save is
  attempted again.
\<close>

theorem failed_save_keeps_dirty:
  assumes "st = post_run es post_initial"
    and "map_of (suspended st) k = Some (AwaitSavePost isAutoSave request)"
    and "is_edit e"
  shows "fst (savePost_rejected k err st) = Some (Failure err)
   \<and> isDirty (snd (savePost_rejected k err st)) = isDirty st
   \<and> emitted (snd (savePost_rejected k err st)) = emitted st @ [PostSaveError err]
   \<and> currentPostId (snd (savePost_rejected k err st)) = currentPostId st
   \<and> currentFilename (snd (savePost_rejected k err st)) = currentFilename st
   \<and> currentPostCreatedAt (snd (savePost_rejected k err st)) = currentPostCreatedAt st
   \<and> timers (snd (savePost_rejected k err st)) = timers st
   \<and> calls (snd (savePost_rejected k err st)) = calls st
   \<and> suspended (snd (savePost_rejected k err st)) = filter (\<lambda>c. fst c \<noteq> k) (suspended st)
   \<and> suspended (post_run_until (now st + 2000)
         (post_dispatch e (snd (savePost_rejected k err st)))) =
       filter (\<lambda>c. fst c \<noteq> k) (suspended st) @
       [(Suc (calls st),
         AwaitSavePost True
           (request_of None (post_dispatch e (snd (savePost_rejected k err st)))))]"
proof -
  let ?r = "snd (savePost_rejected k err st)"
  have ok: "post_ok st"
    unfolding assms(1) using post_ok_initial by (rule post_ok_run)
  have step: "fst (savePost_rejected k err st) = Some (Failure err)
   \<and> isDirty ?r = isDirty st
   \<and> emitted ?r = emitted st @ [PostSaveError err]
   \<and> currentPostId ?r = currentPostId st
   \<and> currentFilename ?r = currentFilename st
   \<and> currentPostCreatedAt ?r = currentPostCreatedAt st
   \<and> timers ?r = timers st
   \<and> calls ?r = calls st
   \<and> suspended ?r = filter (\<lambda>c. fst c \<noteq> k) (suspended st)"
    using assms(2) by (simp add: savePost_rejected_def emit_def ui_listener_def)
  have frame: "now ?r = now st" "debounce_timeout ?r = debounce_timeout st"
    "titleInput ?r = titleInput st" "quill ?r = quill st"
    using assms(2) by (simp_all add: savePost_rejected_def emit_def ui_listener_def)
  have "suspended (post_run_until (now ?r + 2000) (post_dispatch e ?r)) =
           suspended ?r @
           [(Suc (calls ?r), AwaitSavePost True (request_of None (post_dispatch e ?r)))]"
    using edit_then_wait[OF assms(3), of ?r] ok step frame
    by (simp add: post_ok_def list_all_iff)
  then show ?thesis using step frame by simp
qed

lemmas post_defs =
  post_initial_def post_init_def post_dispatch_def on_text_change_def on_title_input_def
  handleSave_def createNewPost_def loadPost_def saveCurrentPost_def save_title_def
  savePost_resolved_def savePost_rejected_def loadPosts_resolved_def truthy_name_def
  debouncedSave_def executedFunction_def later_def func_def post_fire_def
  setDirty_def emit_def ui_listener_def getContent_def getPlainText_def js_or_def trim_def
  is_space_def setTimeout_def clearTimeout_def timer_id_def due_def callback_of_def Let_def

lemma saving_and_edited_eq:
  "saving_and_edited =
     \<lparr>timers = [(2, 4100, LaterCb)], issued = 2, now = 2100, fired = [(2000, LaterCb)],
      currentPostId = None, currentFilename = None, currentPostCreatedAt = None,
      currentIsFavorite = False, isDirty = True, posts = [],
      debounce_timeout = Some 2,
      suspended =
        [(1, AwaitSavePost True
              \<lparr>req_id = None, req_title = ''a'', req_content = [], req_plainText = [],
               req_createdAt = None, req_oldFilename = None, req_isFavorite = False\<rparr>)],
      calls = 1, emitted = [PostDirty True, PostSaving, PostDirty True],
      titleInput = Some ''ab'', quill = Some ([], []), saveStatus = ''Unsaved changes...''\<rparr>"
  by (simp add: saving_and_edited_def post_defs post_run_until.simps)

theorem failed_save_keeps_dirty_witness:
  "saving_and_edited = post_run [(0, TitleInput ''a''), (2100, TitleInput ''ab'')] post_initial
   \<and> map_of (suspended saving_and_edited) 1 =
     Some (AwaitSavePost True
            \<lparr>req_id = None, req_title = ''a'', req_content = [], req_plainText = [],
             req_createdAt = None, req_oldFilename = None, req_isFavorite = False\<rparr>)
   \<and> is_edit (TitleInput ''abc'')
   \<and> isDirty (snd (savePost_rejected 1 ''offline'' saving_and_edited))
   \<and> emitted (snd (savePost_rejected 1 ''offline'' saving_and_edited)) =
       [PostDirty True, PostSaving, PostDirty True, PostSaveError ''offline'']
   \<and> currentPostId (snd (savePost_rejected 1 ''offline'' saving_and_edited)) = None
   \<and> timers (snd (savePost_rejected 1 ''offline'' saving_and_edited)) = [(2, 4100, LaterCb)]
   \<and> suspended (snd (savePost_rejected 1 ''offline'' saving_and_edited)) = []
   \<and> map fst (suspended (post_run_until 4100
        (post_dispatch (TitleInput ''abc'')
           (snd (savePost_rejected 1 ''offline'' saving_and_edited))))) = [2]"
proof -
  have h1: "saving_and_edited = post_run [(0, TitleInput ''a''), (2100, TitleInput ''ab'')] post_initial"
    by (rule saving_and_edited_def)
  have h2: "map_of (suspended saving_and_edited) 1 =
     Some (AwaitSavePost True
            \<lparr>req_id = None, req_title = ''a'', req_content = [], req_plainText = [],
             req_createdAt = None, req_oldFilename = None, req_isFavorite = False\<rparr>)"
    "is_edit (TitleInput ''abc'')"
    by (simp_all add: saving_and_edited_eq)
  note h = h1 h2
  have v: "isDirty saving_and_edited"
    "emitted saving_and_edited = [PostDirty True, PostSaving, PostDirty True]"
    "currentPostId saving_and_edited = None" "calls saving_and_edited = 1"
    "now saving_and_edited + 2000 = 4100" "timers saving_and_edited = [(2, 4100, LaterCb)]"
    "filter (\<lambda>c. fst c \<noteq> (1::nat)) (suspended saving_and_edited) = []"
    by (simp_all add: saving_and_edited_eq)
  note t = failed_save_keeps_dirty [OF h, of "''offline''", unfolded v]
  show ?thesis
    using h t v(1) by (simp del: post_run.simps)
qed

text \<open>
  Claim C1, as the code has it. A save is never deferred. A manual save, and the
  debounced function when it runs on a dirty document, call the backend at once,
  whatever calls are still unanswered: each adds one call to those in flight, so
  their number is not bounded by one.
\<close>

theorem saves_issued_at_once:
  "(titleInput st = Some v \<longrightarrow>
      suspended (handleSave st) =
        suspended st @
        [(Suc (calls st),
          AwaitSavePost False (request_of (Some (js_or (trim v) ''Untitled Post'')) st))]
      \<and> length (in_flight (handleSave st)) = Suc (length (in_flight st)))
   \<and> (isDirty st \<longrightarrow>
      suspended (later st) =
        suspended st @ [(Suc (calls st), AwaitSavePost True (request_of None st))]
      \<and> length (in_flight (later st)) = Suc (length (in_flight st)))"
  by (simp add: handleSave_def later_def func_def saveCurrentPost_def Let_def emit_def
      ui_listener_def request_of_def clearTimeout_def in_flight_def save_title_def
      getContent_def getPlainText_def js_or_def)

theorem saves_issued_at_once_witness:
  "titleInput autosaving = Some ''a'' \<and> isDirty autosaving
   \<and> length (in_flight autosaving) = 1
   \<and> length (in_flight (handleSave autosaving)) = 2
   \<and> length (in_flight (later autosaving)) = 2"
proof -
  have h: "titleInput autosaving = Some ''a''" "isDirty autosaving"
    "length (in_flight autosaving) = 1"
    by code_simp+
  show ?thesis
    using h saves_issued_at_once [of autosaving "''a''"] by simp
qed

text \<open>
  Against the claim as stated: the user types a title, the autosave starts after
  2000 ms, and a click on the save button 100 ms later, with the autosave still
  unanswered, starts a second call of the backend.
\<close>

theorem two_saves_in_flight:
  "map fst (in_flight (post_run [(0, TitleInput ''a''), (2100, SaveClick)] post_initial)) = [1, 2]"
  by code_simp

section \<open>The dirty flag\<close>

text \<open>
  Claim C8, as the code has it. A new post, an opened post and a confirmed save all
  clear the dirty flag through \<^verbatim>\<open>setDirty(false)\<close>, which emits \<^verbatim>\<open>post:dirty\<close>
  with \<^verbatim>\<open>false\<close> every time. They differ in the event that follows:
  \<^verbatim>\<open>post:created\<close>, \<^verbatim>\<open>post:loaded\<close> or \<^verbatim>\<open>post:saved\<close>.
\<close>

theorem dirty_cleared_with_notification:
  "isDirty (createNewPost silent st) = False
   \<and> emitted (createNewPost silent st) =
       emitted st @ [PostDirty False, PostCreated (Some (now st)) silent]
   \<and> isDirty (snd (loadPost (Some p) st)) = False
   \<and> emitted (snd (loadPost (Some p) st)) = emitted st @ [PostDirty False, PostLoaded p]
   \<and> (map_of (suspended st) k = Some (AwaitLoadPosts isAutoSave q) \<longrightarrow>
        isDirty (snd (loadPosts_resolved k ps st)) = False
        \<and> emitted (snd (loadPosts_resolved k ps st)) =
            emitted st @ [PostDirty False, PostSaved q isAutoSave])"
  by (simp add: createNewPost_def loadPost_def loadPosts_resolved_def setDirty_def emit_def
      ui_listener_def Let_def split: option.splits)

theorem dirty_cleared_with_notification_witness:
  "map_of (suspended (savePost_resolved 1 stored_post autosaving)) 1 =
     Some (AwaitLoadPosts True stored_post)
   \<and> isDirty (savePost_resolved 1 stored_post autosaving)
   \<and> \<not> isDirty (snd (loadPosts_resolved 1 [stored_post] (savePost_resolved 1 stored_post autosaving)))
   \<and> emitted (snd (loadPosts_resolved 1 [stored_post] (savePost_resolved 1 stored_post autosaving))) =
       [PostDirty True, PostSaving, PostDirty False, PostSaved stored_post True]
   \<and> emitted (createNewPost False (savePost_resolved 1 stored_post autosaving)) =
       [PostDirty True, PostSaving, PostDirty False, PostCreated (Some 2000) False]
   \<and> emitted (snd (loadPost (Some stored_post) (savePost_resolved 1 stored_post autosaving))) =
       [PostDirty True, PostSaving, PostDirty False, PostLoaded stored_post]"
proof -
  let ?st = "savePost_resolved 1 stored_post autosaving"
  have h: "map_of (suspended ?st) 1 = Some (AwaitLoadPosts True stored_post)"
    "isDirty ?st" "emitted ?st = [PostDirty True, PostSaving]" "now ?st = 2000"
    by code_simp+
  show ?thesis
    using h dirty_cleared_with_notification [of False ?st stored_post 1 True stored_post "[stored_post]"]
    by simp
qed

text \<open>
  Against the claim as stated: the user types a title and then asks for a new post;
  the bus carries the notification that the document is clean.
\<close>

theorem clean_notification_on_new_post:
  "isDirty (on_title_input ''a'' post_initial)
   \<and> \<not> isDirty (createNewPost False (on_title_input ''a'' post_initial))
   \<and> emitted (createNewPost False (on_title_input ''a'' post_initial)) =
       [PostDirty True, PostDirty False, PostCreated (Some 0) False]"
  by (simp add: post_initial_def on_title_input_def debouncedSave_def executedFunction_def
      setTimeout_def clearTimeout_def setDirty_def emit_def ui_listener_def createNewPost_def Let_def)


section \<open>The settings of the screen lock\<close>

text \<open>
  Claim C4, as the code has it. With the lock enabled, a settings update whose PIN
  differs from its confirmation or whose PIN has not the selected length is turned
  down before anything is stored, and the controller is left as it was. Every other
  update is stored as entered and becomes the configuration: the characters of the
  PIN and the sign of the timeout are not looked at, and with the lock disabled
  nothing is. With the lock enabled and the screen unlocked the inactivity timer is
  then armed with the timeout entered, as \<^verbatim>\<open>setTimeout\<close> reads it: converted to
  a signed 32-bit number of milliseconds, a result of 0 or less counting as 0 ms.
\<close>

theorem settings_checked_for_length_only:
  "(refused form \<longrightarrow>
      snd (saveSettings_click form st) = st \<and> fst (saveSettings_click form st) \<noteq> SettingsSaved)
   \<and> (\<not> refused form \<longrightarrow>
      fst (saveSettings_click form st) = SettingsSaved
      \<and> stored (snd (saveSettings_click form st)) = Some (entered form)
      \<and> config (snd (saveSettings_click form st)) = entered form
      \<and> (lockEnabledChecked form \<and> \<not> isLocked st \<longrightarrow>
           timer (snd (saveSettings_click form st)) = Some (Suc (issued st))
           \<and> (Suc (issued st), now st + delay_ms (times_60000 (settingTimeout form)), LockCb)
               \<in> set (timers (snd (saveSettings_click form st)))))"
proof -
  have a: "refused form \<longrightarrow>
      snd (saveSettings_click form st) = st \<and> fst (saveSettings_click form st) \<noteq> SettingsSaved"
    by (auto simp: refused_def saveSettings_click_def Let_def)
  have b: "fst (saveSettings_click form st) = SettingsSaved
      \<and> stored (snd (saveSettings_click form st)) = Some (entered form)
      \<and> config (snd (saveSettings_click form st)) = entered form
      \<and> (lockEnabledChecked form \<and> \<not> isLocked st \<longrightarrow>
           timer (snd (saveSettings_click form st)) = Some (Suc (issued st))
           \<and> (Suc (issued st), now st + delay_ms (times_60000 (settingTimeout form)), LockCb)
               \<in> set (timers (snd (saveSettings_click form st))))" if "\<not> refused form"
  proof -
    have sv: "saveSettings_click form st =
        (SettingsSaved,
         updateSettings \<lparr>new_enabled = Some (lockEnabledChecked form),
           new_pin = Some (settingPin form), new_length = Some (pinLengthChecked form),
           new_timeout = Some (times_60000 (settingTimeout form))\<rparr> st)"
      using that by (auto simp: refused_def saveSettings_click_def Let_def)
    show ?thesis
      unfolding sv
      by (simp add: updateSettings_def saveConfig_def spread_def entered_def Let_def
          startActivityMonitoring_def stopActivityMonitoring_def resetActivityTimer_def
          clearTimeout_def setTimeout_def generatePinDots_def)
  qed
  show ?thesis using a b by blast
qed

theorem settings_checked_for_length_only_witness:
  "refused (zero_timeout_form\<lparr>settingPin := ''123''\<rparr>)
   \<and> snd (saveSettings_click (zero_timeout_form\<lparr>settingPin := ''123''\<rparr>) (init initial)) = init initial
   \<and> \<not> refused zero_timeout_form
   \<and> lockEnabledChecked zero_timeout_form \<and> \<not> isLocked (init initial)
   \<and> stored (snd (saveSettings_click zero_timeout_form (init initial))) =
       Some \<lparr>enabled = True, pin = ''12ab'', length_c = 4, timeout = Num 0\<rparr>
   \<and> (1, 0, LockCb) \<in> set (timers (snd (saveSettings_click zero_timeout_form (init initial))))"
proof -
  have h: "refused (zero_timeout_form\<lparr>settingPin := ''123''\<rparr>)" "\<not> refused zero_timeout_form"
    "lockEnabledChecked zero_timeout_form" "\<not> isLocked (init initial)"
    by code_simp+
  have v: "entered zero_timeout_form = \<lparr>enabled = True, pin = ''12ab'', length_c = 4, timeout = Num 0\<rparr>"
    "issued (init initial) = 0" "now (init initial) = 0"
    "delay_ms (times_60000 (settingTimeout zero_timeout_form)) = 0"
    by code_simp+
  show ?thesis
    using h v
      settings_checked_for_length_only [of "zero_timeout_form\<lparr>settingPin := ''123''\<rparr>" "init initial"]
      settings_checked_for_length_only [of zero_timeout_form "init initial"]
    by simp
qed

text \<open>
  Against the claim as stated: a PIN of four characters that are not all digits and
  a timeout of 0 are stored, and the inactivity timer is armed and locks the screen
  at once.
\<close>

theorem malformed_settings_persisted:
  "saveSettings_click zero_timeout_form (init initial) =
     (SettingsSaved,
      (init initial)
        \<lparr>timers := [(1, 0, LockCb)], issued := 1, timer := Some 1,
         config := \<lparr>enabled = True, pin = ''12ab'', length_c = 4, timeout = Num 0\<rparr>,
         listening := True,
         stored := Some \<lparr>enabled = True, pin = ''12ab'', length_c = 4, timeout = Num 0\<rparr>\<rparr>)
   \<and> isLocked (run_until 0 (snd (saveSettings_click zero_timeout_form (init initial))))"
  by code_simp


section \<open>The lock screen\<close>

lemmas lock_defs =
  init_def initial_def loadConfig_def renderLockScreen_def generatePinDots_def
  saveSettings_click_def updateSettings_def saveConfig_def spread_def times_60000_def
  startActivityMonitoring_def stopActivityMonitoring_def resetActivityTimer_def
  handleActivity_def showError_def lock_def unlock_def checkPin_def handleInput_def
  updateDots_def on_click_def on_keydown_def on_activity_def run_callback_def fire_def
  dispatch_def setTimeout_def clearTimeout_def delay_ms_def truthy_def
  timer_id_def due_def callback_of_def Let_def upt_conv_Cons

lemma locked_screen_eq: "locked_screen =
  \<lparr>timers = [], issued = 1, now = 1000, fired = [], isLocked = True, boundReset = True,
   debounceTimer = None, inputBuffer = [], timer = Some 1,
   config = \<lparr>enabled = True, pin = ''1234'', length_c = 4, timeout = Num 300000\<rparr>,
   listening = False,
   stored = Some \<lparr>enabled = True, pin = ''1234'', length_c = 4, timeout = Num 300000\<rparr>,
   dots = [(False, False), (False, False), (False, False), (False, False)],
   screenOps = [AddActive]\<rparr>"
  by (simp add: locked_screen_def pin_form_def lock_defs run_until.simps)

lemma buffer_stop:
  "inputBuffer (stopActivityMonitoring st) = inputBuffer st"
  "config (stopActivityMonitoring st) = config st"
  "isLocked (stopActivityMonitoring st) = isLocked st"
  by (simp_all add: stopActivityMonitoring_def clearTimeout_def)

lemma buffer_reset:
  "inputBuffer (resetActivityTimer st) = inputBuffer st"
  "config (resetActivityTimer st) = config st"
  "isLocked (resetActivityTimer st) = isLocked st"
  by (simp_all add: resetActivityTimer_def clearTimeout_def setTimeout_def Let_def)

lemma buffer_start:
  "inputBuffer (startActivityMonitoring st) = inputBuffer st"
  "config (startActivityMonitoring st) = config st"
  "isLocked (startActivityMonitoring st) = isLocked st"
  by (simp_all add: startActivityMonitoring_def Let_def buffer_stop buffer_reset)

lemma buffer_updateDots:
  "inputBuffer (updateDots st) = inputBuffer st"
  "config (updateDots st) = config st"
  "isLocked (updateDots st) = isLocked st"
  by (simp_all add: updateDots_def)

lemma buffer_unlock:
  "inputBuffer (unlock st) = []" "config (unlock st) = config st"
  by (simp_all add: unlock_def Let_def buffer_start)

lemma buffer_showError:
  "inputBuffer (showError st) = []" "config (showError st) = config st"
  "isLocked (showError st) = isLocked st"
  by (simp_all add: showError_def setTimeout_def)

lemma buffer_lock:
  "inputBuffer (lock st) = (if isLocked st then inputBuffer st else [])"
  "config (lock st) = config st"
  by (simp_all add: lock_def Let_def buffer_stop buffer_updateDots)

lemma buffer_checkPin:
  "inputBuffer (checkPin st) = []" "config (checkPin st) = config st"
  by (simp_all add: checkPin_def buffer_unlock buffer_showError)

lemmas buffer_simps =
  buffer_stop buffer_reset buffer_start buffer_updateDots buffer_unlock buffer_showError
  buffer_lock buffer_checkPin

lemma ok_handleInput:
  assumes "buffer_ok st" "lock_key key"
  shows "buffer_ok (handleInput key st) \<and> config (handleInput key st) = config st"
proof -
  have "length (butlast (inputBuffer st)) \<le> length_c (config st)"
    "list_all is_digit (butlast (inputBuffer st))"
    using assms(1) by (auto simp: buffer_ok_def list_all_iff dest: in_set_butlastD)
  then show ?thesis
    using assms
    by (auto simp: handleInput_def buffer_ok_def lock_key_def Let_def setTimeout_def
        buffer_simps)
qed

lemma digit_key:
  assumes "keyboard_key key" "str_le ''0'' key" "str_le key ''9''"
  shows "\<exists>c. key = [c] \<and> is_digit c"
proof (cases key)
  case Nil
  then show ?thesis using assms by simp
next
  case (Cons c cs)
  show ?thesis
  proof (cases cs)
    case Nil
    then show ?thesis using assms Cons by (auto simp: is_digit_def)
  next
    case (Cons d ds)
    then show ?thesis using assms \<open>key = c # cs\<close> by (auto simp: is_upper_def)
  qed
qed


lemma ok_keydown:
  assumes "buffer_ok st" "keyboard_key key"
  shows "buffer_ok (on_keydown key st) \<and> config (on_keydown key st) = config st"
proof (cases "isLocked st")
  case False
  then show ?thesis using assms(1) by (simp add: on_keydown_def)
next
  case True
  show ?thesis
  proof (cases "str_le ''0'' key \<and> str_le key ''9''")
    case digit: True
    then have "lock_key key"
      using digit_key[OF assms(2)] by (simp add: lock_key_def)
    then show ?thesis
      using ok_handleInput[OF assms(1), of key] True digit by (simp add: on_keydown_def)
  next
    case other: False
    have bs: "lock_key ''backspace''" and en: "lock_key ''enter''"
      by (simp_all add: lock_key_def)
    show ?thesis
      using ok_handleInput[OF assms(1) bs] ok_handleInput[OF assms(1) en] assms(1) True other
      unfolding on_keydown_def by presburger
  qed
qed


lemma keypad_lock_key: "key \<in> set keypad \<Longrightarrow> lock_key key"
proof -
  have "list_all lock_key keypad"
    by (simp add: keypad_def lock_key_def is_digit_def)
  then show "key \<in> set keypad \<Longrightarrow> lock_key key"
    by (simp add: list_all_iff)
qed

lemma ok_dispatch:
  assumes "buffer_ok st" "input_event e"
  shows "buffer_ok (dispatch e st) \<and> config (dispatch e st) = config st"
proof (cases e)
  case (KeyDown key)
  then show ?thesis
    using ok_keydown[OF assms(1), of key] assms(2) by (simp add: dispatch_def)
next
  case (Click btn)
  show ?thesis
  proof (cases btn)
    case None
    then show ?thesis using assms Click by (simp add: dispatch_def on_click_def)
  next
    case (Some key)
    then have "lock_key key"
      using assms(2) Click keypad_lock_key by simp
    then show ?thesis
      using ok_handleInput[OF assms(1), of key] assms(1) Click Some
      by (simp add: dispatch_def on_click_def)
  qed
qed (use assms in simp_all)

lemma ok_callback:
  assumes "buffer_ok st"
  shows "buffer_ok (run_callback cb st) \<and> config (run_callback cb st) = config st"
  using assms by (cases cb) (auto simp: run_callback_def buffer_ok_def buffer_simps)

lemma ok_fire:
  assumes "buffer_ok st"
  shows "buffer_ok (fire t st) \<and> config (fire t st) = config st"
proof -
  have "buffer_ok (st\<lparr>timers := remove1 t (timers st), now := max (now st) (due t),
           fired := fired st @ [(max (now st) (due t), callback_of t)]\<rparr>)"
    using assms by (simp add: buffer_ok_def)
  then show ?thesis
    unfolding fire_def using ok_callback by fastforce
qed

lemma ok_run_until:
  "buffer_ok st \<Longrightarrow> buffer_ok (run_until T st) \<and> config (run_until T st) = config st"
proof (induction T st rule: run_until.induct)
  case (1 T st)
  show ?case
  proof (cases "earliest (timers st)")
    case None
    then show ?thesis using "1.prems"
      by (subst (1 2) run_until.simps) (simp add: buffer_ok_def)
  next
    case (Some t)
    show ?thesis
    proof (cases "due t \<le> T")
      case True
      have "buffer_ok (fire t st)" "config (fire t st) = config st"
        using ok_fire[OF "1.prems"] by simp_all
      then show ?thesis
        using "1.IH"[OF Some True] Some True
        by (subst (1 2) run_until.simps) simp
    next
      case False
      then show ?thesis using "1.prems" Some
        by (subst (1 2) run_until.simps) (simp add: buffer_ok_def)
    qed
  qed
qed

lemma ok_run:
  "buffer_ok st \<Longrightarrow> \<forall>e\<in>set es. input_event (snd e) \<Longrightarrow>
   buffer_ok (run es st) \<and> config (run es st) = config st"
proof (induction es arbitrary: st)
  case Nil
  then show ?case by simp
next
  case (Cons e es)
  have a: "buffer_ok (run_until (fst e) st)" "config (run_until (fst e) st) = config st"
    using ok_run_until[OF Cons.prems(1)] by simp_all
  have b: "buffer_ok (dispatch (snd e) (run_until (fst e) st))"
    "config (dispatch (snd e) (run_until (fst e) st)) = config st"
    using ok_dispatch[OF a(1), of "snd e"] Cons.prems(2) a(2) by simp_all
  show ?case using Cons.IH[OF b(1)] Cons.prems(2) b(2) by simp
qed

subsection \<open>Timers on a locked screen\<close>

lemma earliest_none: "earliest ts = None \<longleftrightarrow> ts = []"
  by (cases ts) (auto split: option.splits if_splits)

lemma earliest_le: "earliest ts = Some u \<Longrightarrow> t \<in> set ts \<Longrightarrow> due u \<le> due t"
proof (induction ts arbitrary: u)
  case Nil
  then show ?case by simp
next
  case (Cons a ts)
  show ?case
  proof (cases "earliest ts")
    case None
    then have "ts = []" by (simp add: earliest_none)
    then show ?thesis using Cons.prems by simp
  next
    case (Some v)
    then show ?thesis
      using Cons.IH[OF Some] Cons.prems by (auto split: if_splits)
  qed
qed

lemma filter_remove1_other: "\<not> P u \<Longrightarrow> filter P (remove1 u xs) = filter P xs"
  by (simp add: filter_remove1 remove1_idem)

lemma pending_none: "pending cb x = [] \<longleftrightarrow> (\<forall>t\<in>set (timers x). callback_of t \<noteq> cb)"
  by (auto simp: pending_def filter_empty_conv)

lemma pending_single:
  assumes "pending cb x = [c]"
  shows "c \<in> set (timers x)" "callback_of c = cb"
    "u \<in> set (timers x) \<Longrightarrow> callback_of u = cb \<Longrightarrow> u = c"
proof -
  have "set (pending cb x) = {c}" using assms by simp
  then have s: "{t \<in> set (timers x). callback_of t = cb} = {c}" by (simp add: pending_def)
  then show "c \<in> set (timers x)" "callback_of c = cb" by auto
  show "u \<in> set (timers x) \<Longrightarrow> callback_of u = cb \<Longrightarrow> u = c" using s by auto
qed


lemma pending_fired:
  "pending cb (x\<lparr>timers := remove1 u (timers x), now := n, fired := f\<rparr>) =
     remove1 u (pending cb x)"
  by (simp add: pending_def filter_remove1)

lemma run_until_stop:
  "earliest (timers st) = None \<Longrightarrow> run_until T st = st\<lparr>now := max (now st) T\<rparr>"
  "earliest (timers st) = Some u \<Longrightarrow> T < due u \<Longrightarrow> run_until T st = st\<lparr>now := max (now st) T\<rparr>"
  by (subst run_until.simps, simp)+

lemma run_until_step:
  "earliest (timers st) = Some u \<Longrightarrow> due u \<le> T \<Longrightarrow> run_until T st = run_until T (fire u st)"
  by (subst run_until.simps) simp

lemma locked_fire:
  assumes "isLocked x" "callback_of u \<noteq> CheckPinCb"
  shows "isLocked (fire u x)" "inputBuffer (fire u x) = inputBuffer x"
    "config (fire u x) = config x" "screenOps (fire u x) = screenOps x"
    "issued (fire u x) = issued x" "timers (fire u x) = remove1 u (timers x)"
    "now (fire u x) = max (now x) (due u)" "boundReset (fire u x) = boundReset x"
    "length (dots (fire u x)) = length (dots x)"
    "dots (fire u x) = (if callback_of u = UpdateDotsCb then dots (updateDots x) else dots x)"
  using assms
  by (cases "callback_of u";
      simp add: fire_def run_callback_def lock_def resetActivityTimer_def updateDots_def)+

lemma updateDots_again:
  "inputBuffer a = inputBuffer b \<Longrightarrow> length (dots a) = length (dots b) \<Longrightarrow>
   dots (updateDots a) = dots (updateDots b)"
  by (simp add: updateDots_def)

lemma locked_wait:
  assumes "isLocked x" "\<forall>t\<in>set (timers x). callback_of t = CheckPinCb \<longrightarrow> T < due t"
  shows "isLocked (run_until T x) \<and> inputBuffer (run_until T x) = inputBuffer x
    \<and> config (run_until T x) = config x \<and> screenOps (run_until T x) = screenOps x
    \<and> issued (run_until T x) = issued x \<and> boundReset (run_until T x) = boundReset x
    \<and> timers (run_until T x) = filter (\<lambda>t. T < due t) (timers x)
    \<and> now (run_until T x) = max (now x) T
    \<and> length (dots (run_until T x)) = length (dots x)
    \<and> dots (run_until T x) =
        (if \<exists>t\<in>set (timers x). callback_of t = UpdateDotsCb \<and> due t \<le> T
         then dots (updateDots x) else dots x)"
  using assms
proof (induction T x rule: run_until.induct)
  case (1 T st)
  show ?case
  proof (cases "earliest (timers st)")
    case None
    then have "timers st = []" by (simp add: earliest_none)
    then show ?thesis using "1.prems"(1) unfolding run_until_stop(1)[OF None] by simp
  next
    case (Some u)
    note mem = earliest_mem[OF Some]
    show ?thesis
    proof (cases "due u \<le> T")
      case False
      then have late: "T < due u" by simp
      have all: "\<forall>t\<in>set (timers st). T < due t"
        using earliest_le[OF Some] False by fastforce
      then have "filter (\<lambda>t. T < due t) (timers st) = timers st" by simp
      moreover have "(\<exists>t\<in>set (timers st). callback_of t = UpdateDotsCb \<and> due t \<le> T) = False"
        using all by fastforce
      ultimately show ?thesis using "1.prems"(1)
        unfolding run_until_stop(2)[OF Some late] by (simp only: simp_thms if_False) simp
    next
      case True
      have nc: "callback_of u \<noteq> CheckPinCb" using "1.prems"(2) mem True by fastforce
      note f = locked_fire[OF "1.prems"(1) nc]
      have sub: "set (remove1 u (timers st)) \<subseteq> set (timers st)" by (rule set_remove1_subset)
      have p2: "\<forall>t\<in>set (timers (fire u st)). callback_of t = CheckPinCb \<longrightarrow> T < due t"
        using "1.prems"(2) sub unfolding f(6) by blast
      let ?y = "run_until T (fire u st)" and ?f = "fire u st"
      have ih: "isLocked ?y" "inputBuffer ?y = inputBuffer ?f" "config ?y = config ?f"
        "screenOps ?y = screenOps ?f" "issued ?y = issued ?f" "boundReset ?y = boundReset ?f"
        "timers ?y = filter (\<lambda>t. T < due t) (timers ?f)" "now ?y = max (now ?f) T"
        "length (dots ?y) = length (dots ?f)"
        "dots ?y = (if \<exists>t\<in>set (timers ?f). callback_of t = UpdateDotsCb \<and> due t \<le> T
                    then dots (updateDots ?f) else dots ?f)"
        using "1.IH"[OF Some True f(1) p2] by blast+
      have tm: "filter (\<lambda>t. T < due t) (remove1 u (timers st)) = filter (\<lambda>t. T < due t) (timers st)"
        using True by (intro filter_remove1_other) simp
      have ud: "dots (updateDots (fire u st)) = dots (updateDots st)"
        using f(2,9) by (rule updateDots_again)
      have d: "dots (run_until T (fire u st)) =
        (if \<exists>t\<in>set (timers st). callback_of t = UpdateDotsCb \<and> due t \<le> T
         then dots (updateDots st) else dots st)"
      proof (cases "callback_of u = UpdateDotsCb")
        case upd: True
        have "\<exists>t\<in>set (timers st). callback_of t = UpdateDotsCb \<and> due t \<le> T"
          using mem upd True by blast
        moreover have "dots (run_until T (fire u st)) = dots (updateDots st)"
          unfolding ih(10) using ud f(10) upd by simp
        ultimately show ?thesis by simp
      next
        case other: False
        have "(\<exists>t\<in>set (timers st). callback_of t = UpdateDotsCb \<and> due t \<le> T) \<longleftrightarrow>
          (\<exists>t\<in>set (remove1 u (timers st)). callback_of t = UpdateDotsCb \<and> due t \<le> T)"
          using other sub by (metis in_set_remove1 subsetD)
        moreover have "dots (fire u st) = dots st" using f(10) other by simp
        ultimately show ?thesis unfolding ih(10) f(6) using ud by (simp; blast)
      qed
      have n: "max (max (now st) (due u)) T = max (now st) T" using True by simp
      show ?thesis
        unfolding run_until_step[OF Some True]
      proof (intro conjI)
        show "isLocked (run_until T (fire u st))" by (rule ih(1))
        show "inputBuffer (run_until T (fire u st)) = inputBuffer st" using ih(2) f(2) by simp
        show "config (run_until T (fire u st)) = config st" using ih(3) f(3) by simp
        show "screenOps (run_until T (fire u st)) = screenOps st" using ih(4) f(4) by simp
        show "issued (run_until T (fire u st)) = issued st" using ih(5) f(5) by simp
        show "boundReset (run_until T (fire u st)) = boundReset st" using ih(6) f(8) by simp
        show "timers (run_until T (fire u st)) = filter (\<lambda>t. T < due t) (timers st)"
          using ih(7) tm unfolding f(6) by simp
        show "now (run_until T (fire u st)) = max (now st) T" using ih(8) n unfolding f(7) by simp
        show "length (dots (run_until T (fire u st))) = length (dots st)" using ih(9) f(9) by simp
        show "dots (run_until T (fire u st)) =
          (if \<exists>t\<in>set (timers st). callback_of t = UpdateDotsCb \<and> due t \<le> T
           then dots (updateDots st) else dots st)" by (rule d)
      qed
    qed
  qed
qed




lemma handleInput_digit:
  assumes "length (inputBuffer x) < length_c (config x)"
  shows "inputBuffer (handleInput [c] x) = inputBuffer x @ [c]"
    "isLocked (handleInput [c] x) = isLocked x" "config (handleInput [c] x) = config x"
    "screenOps (handleInput [c] x) = screenOps x"
    "boundReset (handleInput [c] x) = boundReset x"
    "now (handleInput [c] x) = now x" "length (dots (handleInput [c] x)) = length (dots x)"
    "timers (handleInput [c] x) =
       (if Suc (length (inputBuffer x)) = length_c (config x)
        then timers x @ [(Suc (issued x), now x + 100, CheckPinCb)] else timers x)"
    "issued (handleInput [c] x) =
       (if Suc (length (inputBuffer x)) = length_c (config x) then Suc (issued x) else issued x)"
  using assms by (simp_all add: handleInput_def Let_def setTimeout_def updateDots_def)





subsection \<open>The check of the PIN\<close>

lemma fire_check:
  assumes "callback_of u = CheckPinCb"
  shows "fire u x =
    checkPin (x\<lparr>timers := remove1 u (timers x), now := max (now x) (due u),
                fired := fired x @ [(max (now x) (due u), CheckPinCb)]\<rparr>)"
  using assms by (simp add: fire_def run_callback_def)

lemma showError_fields:
  "isLocked (showError p) = isLocked p" "inputBuffer (showError p) = []"
  "config (showError p) = config p" "screenOps (showError p) = screenOps p"
  "length (dots (showError p)) = length (dots p)" "list_all snd (dots (showError p))"
  "timers (showError p) = timers p @ [(Suc (issued p), now p + 500, UpdateDotsCb)]"
  "now (showError p) = now p"
  by (simp_all add: showError_def setTimeout_def list_all_iff)

lemma wrong_check:
  assumes "isLocked x" "pending CheckPinCb x = [chk]" "now x \<le> due chk"
    "inputBuffer x \<noteq> pin (config x)" "due chk \<le> T"
  shows "isLocked (run_until T x) \<and> inputBuffer (run_until T x) = []
    \<and> config (run_until T x) = config x \<and> screenOps (run_until T x) = screenOps x
    \<and> length (dots (run_until T x)) = length (dots x)
    \<and> pending CheckPinCb (run_until T x) = []
    \<and> (T < due chk + 500
        \<and> (\<forall>t\<in>set (pending UpdateDotsCb x). due t < due chk \<or> T < due t) \<longrightarrow>
          list_all snd (dots (run_until T x)))
    \<and> (due chk + 500 \<le> T
        \<or> (\<exists>t\<in>set (pending UpdateDotsCb x). due chk < due t \<and> due t \<le> T) \<longrightarrow>
          list_all (\<lambda>d. \<not> fst d \<and> \<not> snd d) (dots (run_until T x)))"
  using assms
proof (induction T x rule: run_until.induct)
  case (1 T st)
  note c = pending_single[OF "1.prems"(2)]
  obtain u where Some: "earliest (timers st) = Some u"
    using c(1) by (cases "earliest (timers st)") (auto simp: earliest_none)
  note mem = earliest_mem[OF Some]
  have le: "due u \<le> due chk" using earliest_le[OF Some c(1)] .
  then have True: "due u \<le> T" using "1.prems"(5) by simp
  note r = run_until_step[OF Some True]
  show ?case
  proof (cases "callback_of u = CheckPinCb")
    case check: True
    then have u: "u = chk" using c(3) mem by simp
    let ?p = "st\<lparr>timers := remove1 chk (timers st), now := max (now st) (due chk),
                  fired := fired st @ [(max (now st) (due chk), CheckPinCb)]\<rparr>"
    let ?z = "showError ?p"
    have z: "fire chk st = ?z"
      using fire_check[OF c(2), of st] "1.prems"(4) by (simp add: checkPin_def)
    note e = showError_fields[of ?p]
    have zl: "isLocked ?z" using e(1) "1.prems"(1) by simp
    have ztm: "timers ?z = remove1 chk (timers st) @ [(Suc (issued st), due chk + 500, UpdateDotsCb)]"
      using e(7) "1.prems"(3) by (simp add: max_def)
    have sub: "set (remove1 chk (timers st)) \<subseteq> set (timers st)" by (rule set_remove1_subset)
    have "pending CheckPinCb ?p = []"
      using "1.prems"(2) by (simp add: pending_fired)
    then have pz: "pending CheckPinCb ?z = []"
      unfolding pending_def e(7) by (simp add: callback_of_def)
    then have nc: "\<forall>t\<in>set (timers ?z). callback_of t = CheckPinCb \<longrightarrow> T < due t"
      by (simp add: pending_none)
    let ?y = "run_until T ?z"
    have w: "isLocked ?y" "inputBuffer ?y = inputBuffer ?z" "config ?y = config ?z"
      "screenOps ?y = screenOps ?z" "timers ?y = filter (\<lambda>t. T < due t) (timers ?z)"
      "length (dots ?y) = length (dots ?z)"
      "dots ?y = (if \<exists>t\<in>set (timers ?z). callback_of t = UpdateDotsCb \<and> due t \<le> T
                  then dots (updateDots ?z) else dots ?z)"
      using locked_wait[OF zl nc] by blast+
    have "\<forall>t\<in>set (timers ?z). callback_of t \<noteq> CheckPinCb"
      using pz by (simp only: pending_none)
    then have py: "pending CheckPinCb ?y = []"
      unfolding pending_none w(5) by simp
    have clear: "list_all (\<lambda>d. \<not> fst d \<and> \<not> snd d) (dots (updateDots ?z))"
      using e(2) by (simp add: updateDots_def list_all_iff)
    have mid: "list_all snd (dots ?y)"
      if a: "T < due chk + 500" "\<forall>t\<in>set (pending UpdateDotsCb st). due t < due chk \<or> T < due t"
    proof -
      have "\<not> (callback_of t = UpdateDotsCb \<and> due t \<le> T)" if t: "t \<in> set (timers ?z)" for t
      proof (cases "t \<in> set (remove1 chk (timers st))")
        case True
        then have m: "t \<in> set (timers st)" using sub by blast
        have ge: "due chk \<le> due t" using earliest_le[OF Some m] u by simp
        show ?thesis
        proof
          assume h: "callback_of t = UpdateDotsCb \<and> due t \<le> T"
          then have "t \<in> set (pending UpdateDotsCb st)" using m by (simp add: pending_def)
          then have "due t < due chk \<or> T < due t" using a(2) by blast
          then show False using h ge by auto
        qed
      next
        case False
        then have "t = (Suc (issued st), due chk + 500, UpdateDotsCb)" using t ztm by simp
        then show ?thesis using a(1) by (simp add: due_def)
      qed
      then have "(\<exists>t\<in>set (timers ?z). callback_of t = UpdateDotsCb \<and> due t \<le> T) = False"
        by blast
      then have "dots ?y = dots ?z" unfolding w(7) by (simp only: if_False)
      then show ?thesis using e(6) by simp
    qed
    have late: "list_all (\<lambda>d. \<not> fst d \<and> \<not> snd d) (dots ?y)"
      if "due chk + 500 \<le> T \<or> (\<exists>t\<in>set (pending UpdateDotsCb st). due chk < due t \<and> due t \<le> T)"
    proof -
      have "\<exists>t\<in>set (timers ?z). callback_of t = UpdateDotsCb \<and> due t \<le> T"
        using that
      proof
        assume "due chk + 500 \<le> T"
        then show ?thesis unfolding ztm by (simp add: callback_of_def due_def)
      next
        assume "\<exists>t\<in>set (pending UpdateDotsCb st). due chk < due t \<and> due t \<le> T"
        then obtain t where t: "t \<in> set (timers st)" "callback_of t = UpdateDotsCb"
          "due chk < due t" "due t \<le> T" by (auto simp: pending_def)
        then have "t \<noteq> chk" by auto
        then have "t \<in> set (remove1 chk (timers st))" using t(1) by simp
        then show ?thesis unfolding ztm using t(2,4) by auto
      qed
      then have "(\<exists>t\<in>set (timers ?z). callback_of t = UpdateDotsCb \<and> due t \<le> T) = True"
        by simp
      then have "dots ?y = dots (updateDots ?z)" unfolding w(7) by (simp only: if_True)
      then show ?thesis using clear by simp
    qed
    show ?thesis
      unfolding r u z using w(1) w(2)[unfolded e(2)] w(3)[unfolded e(3)] w(4)[unfolded e(4)]
        w(6)[unfolded e(5)] py mid late
      by simp
  next
    case other: False
    note f = locked_fire[OF "1.prems"(1) other]
    have ne: "u \<noteq> chk" using other c(2) by auto
    have p1: "pending CheckPinCb (fire u st) = [chk]"
      unfolding pending_def f(6) using other "1.prems"(2)
      by (simp add: filter_remove1_other pending_def)
    have n1: "now (fire u st) \<le> due chk" unfolding f(7) using "1.prems"(3) le by simp
    have b1: "inputBuffer (fire u st) \<noteq> pin (config (fire u st))"
      unfolding f(2,3) by (rule "1.prems"(4))
    let ?y = "run_until T (fire u st)"
    have ih: "isLocked ?y" "inputBuffer ?y = []" "config ?y = config (fire u st)"
      "screenOps ?y = screenOps (fire u st)" "length (dots ?y) = length (dots (fire u st))"
      "pending CheckPinCb ?y = []"
      "T < due chk + 500
        \<and> (\<forall>t\<in>set (pending UpdateDotsCb (fire u st)). due t < due chk \<or> T < due t) \<longrightarrow>
          list_all snd (dots ?y)"
      "due chk + 500 \<le> T
        \<or> (\<exists>t\<in>set (pending UpdateDotsCb (fire u st)). due chk < due t \<and> due t \<le> T) \<longrightarrow>
          list_all (\<lambda>d. \<not> fst d \<and> \<not> snd d) (dots ?y)"
      using "1.IH"[OF Some True f(1) p1 n1 b1 "1.prems"(5)] by blast+
    have pu: "pending UpdateDotsCb (fire u st) = remove1 u (pending UpdateDotsCb st)"
      unfolding pending_def f(6) by (rule filter_remove1)
    have sub: "set (remove1 u (pending UpdateDotsCb st)) \<subseteq> set (pending UpdateDotsCb st)"
      by (rule set_remove1_subset)
    have mid: "list_all snd (dots ?y)"
      if "T < due chk + 500" "\<forall>t\<in>set (pending UpdateDotsCb st). due t < due chk \<or> T < due t"
      using ih(7) that sub unfolding pu by blast
    have late: "list_all (\<lambda>d. \<not> fst d \<and> \<not> snd d) (dots ?y)"
      if "due chk + 500 \<le> T \<or> (\<exists>t\<in>set (pending UpdateDotsCb st). due chk < due t \<and> due t \<le> T)"
    proof -
      have "\<exists>t\<in>set (remove1 u (pending UpdateDotsCb st)). due chk < due t \<and> due t \<le> T"
        if b: "\<exists>t\<in>set (pending UpdateDotsCb st). due chk < due t \<and> due t \<le> T"
      proof -
        from b obtain t where t: "t \<in> set (pending UpdateDotsCb st)" "due chk < due t" "due t \<le> T"
          by blast
        then have "t \<noteq> u" using le by auto
        then have "t \<in> set (remove1 u (pending UpdateDotsCb st))" using t(1) by simp
        then show ?thesis using t(2,3) by blast
      qed
      then show ?thesis using ih(8) that unfolding pu by blast
    qed
    show ?thesis
      unfolding r using ih(1,2) ih(3)[unfolded f(3)] ih(4)[unfolded f(4)] ih(5)[unfolded f(9)]
        ih(6) mid late
      by simp
  qed
qed

lemma now_callback: "now (run_callback cb s) = now s"
  by (cases cb)
     (simp_all add: run_callback_def checkPin_def unlock_def showError_def lock_def
        startActivityMonitoring_def stopActivityMonitoring_def resetActivityTimer_def
        updateDots_def setTimeout_def clearTimeout_def Let_def)

lemma now_fire: "now (fire u s) = max (now s) (due u)"
  by (simp add: fire_def now_callback)


lemma quiet_callback:
  assumes "inputBuffer s = []" "pin (config s) \<noteq> []"
  shows "inputBuffer (run_callback cb s) = [] \<and> config (run_callback cb s) = config s
       \<and> unlocks (run_callback cb s) = unlocks s"
  using assms
  by (cases cb)
     (auto simp: run_callback_def checkPin_def showError_def setTimeout_def lock_def
       updateDots_def stopActivityMonitoring_def clearTimeout_def resetActivityTimer_def
       unlocks_def Let_def)

lemma quiet_fire:
  assumes "inputBuffer s = []" "pin (config s) \<noteq> []"
  shows "inputBuffer (fire t s) = [] \<and> config (fire t s) = config s
       \<and> unlocks (fire t s) = unlocks s"
  using quiet_callback[of "s\<lparr>timers := remove1 t (timers s), now := max (now s) (due t),
           fired := fired s @ [(max (now s) (due t), callback_of t)]\<rparr>" "callback_of t"] assms
  by (simp add: fire_def unlocks_def)

lemma quiet_wait:
  "inputBuffer s = [] \<Longrightarrow> pin (config s) \<noteq> [] \<Longrightarrow>
   unlocks (run_until T s) = unlocks s \<and> inputBuffer (run_until T s) = []
   \<and> config (run_until T s) = config s"
proof (induction T s rule: run_until.induct)
  case (1 T st)
  show ?case
  proof (cases "earliest (timers st)")
    case None
    then show ?thesis using "1.prems" by (simp add: run_until_stop(1) unlocks_def)
  next
    case (Some t)
    show ?thesis
    proof (cases "due t \<le> T")
      case True
      have q: "inputBuffer (fire t st) = []" "config (fire t st) = config st"
        "unlocks (fire t st) = unlocks st"
        using quiet_fire[OF "1.prems", of t] by blast+
      have "pin (config (fire t st)) \<noteq> []" using q(2) "1.prems"(2) by simp
      then show ?thesis
        using "1.IH"[OF Some True q(1)] q by (simp add: run_until_step[OF Some True])
    next
      case False
      then show ?thesis using "1.prems" by (simp add: run_until_stop(2)[OF Some] unlocks_def)
    qed
  qed
qed

lemma unlock_fields:
  "\<not> isLocked (unlock p)" "inputBuffer (unlock p) = []" "config (unlock p) = config p"
  "unlocks (unlock p) = Suc (unlocks p)" "now (unlock p) = now p"
  by (simp_all add: unlock_def startActivityMonitoring_def stopActivityMonitoring_def
      resetActivityTimer_def setTimeout_def clearTimeout_def unlocks_def Let_def)

lemma unlock_monitor:
  assumes "pending LockCb p = []" "enabled (config p)" "boundReset p"
  shows "listening (unlock p)" "timer (unlock p) = Some (Suc (issued p))"
    "pending LockCb (unlock p) =
       [(Suc (issued p), now p + delay_ms (timeout (config p)), LockCb)]"
proof -
  have none: "\<forall>t\<in>set (timers p). callback_of t \<noteq> LockCb"
    using assms(1) by (simp add: pending_none)
  show "listening (unlock p)" "timer (unlock p) = Some (Suc (issued p))"
    using assms(2,3)
    by (simp_all add: unlock_def startActivityMonitoring_def stopActivityMonitoring_def
        resetActivityTimer_def setTimeout_def clearTimeout_def Let_def)
  show "pending LockCb (unlock p) =
       [(Suc (issued p), now p + delay_ms (timeout (config p)), LockCb)]"
    using assms(2,3) none
    by (simp add: unlock_def startActivityMonitoring_def stopActivityMonitoring_def
        resetActivityTimer_def setTimeout_def clearTimeout_def Let_def pending_def
        callback_of_def filter_empty_conv)
qed

lemma unlock_off:
  assumes "pending LockCb p = []" "\<not> enabled (config p)"
  shows "pending LockCb (unlock p) = []"
  using assms by (simp add: unlock_def pending_def)

lemma monitoring_iff:
  "monitoring lo y \<longleftrightarrow>
     \<not> isLocked y \<and> enabled (config y) \<and> listening y
     \<and> (\<exists>l. pending LockCb y = [l] \<and> Some (timer_id l) = timer y \<and> lo \<le> due l
            \<and> due l \<le> now y + delay_ms (timeout (config y)))"
  by (auto simp: monitoring_def map_eq_Cons_conv)

lemma monitoring_frame:
  assumes "monitoring lo a" "isLocked b = isLocked a" "config b = config a"
    "listening b = listening a" "timer b = timer a" "pending LockCb b = pending LockCb a"
    "now a \<le> now b"
  shows "monitoring lo b"
proof -
  from assms(1) obtain l where l: "pending LockCb a = [l]" "Some (timer_id l) = timer a"
    "lo \<le> due l" "due l \<le> now a + delay_ms (timeout (config a))"
    and y: "\<not> isLocked a" "enabled (config a)" "listening a"
    unfolding monitoring_iff by blast
  have "due l \<le> now b + delay_ms (timeout (config a))" using l(4) assms(7) by simp
  then show ?thesis
    unfolding monitoring_iff assms(2-6) using l(1-3) y by simp
qed

lemma monitoring_fire:
  assumes "monitoring lo y" "inputBuffer y = []" "pin (config y) \<noteq> []"
    "lo \<le> now y + delay_ms (timeout (config y))" "u \<in> set (timers y)" "due u < lo"
  shows "monitoring lo (fire u y)"
proof -
  let ?d = "delay_ms (timeout (config y))"
  let ?p = "y\<lparr>timers := remove1 u (timers y), now := max (now y) (due u),
                fired := fired y @ [(max (now y) (due u), callback_of u)]\<rparr>"
  from assms(1) obtain l where l: "pending LockCb y = [l]" "Some (timer_id l) = timer y"
    "lo \<le> due l" "due l \<le> now y + ?d"
    and y: "\<not> isLocked y" "enabled (config y)" "listening y"
    unfolding monitoring_iff by blast
  have nl: "callback_of u \<noteq> LockCb"
  proof
    assume "callback_of u = LockCb"
    then have "u = l" using pending_single(3)[OF l(1) assms(5)] by simp
    then show False using l(3) assms(6) by simp
  qed
  have pp: "pending LockCb ?p = pending LockCb y"
    using nl by (simp add: pending_def filter_remove1_other)
  have mp: "monitoring lo ?p"
    using assms(1) by (rule monitoring_frame) (simp_all add: pp)
  show ?thesis
  proof (cases "callback_of u")
    case CheckPinCb
    have "monitoring lo (showError ?p)"
      by (rule monitoring_frame[OF mp])
         (simp_all add: pending_def showError_def setTimeout_def callback_of_def)
    then show ?thesis
      using CheckPinCb assms(2,3) by (simp add: fire_def run_callback_def checkPin_def)
  next
    case UpdateDotsCb
    have "monitoring lo (updateDots ?p)"
      by (rule monitoring_frame[OF mp]) (simp_all add: pending_def updateDots_def)
    then show ?thesis using UpdateDotsCb by (simp add: fire_def run_callback_def)
  next
    case LockCb
    then show ?thesis using nl by simp
  next
    case ActivityCb
    let ?q = "?p\<lparr>debounceTimer := None\<rparr>"
    have "Some (timer_id t) = timer y"
      if "t \<in> set (remove1 u (timers y))" "callback_of t = LockCb" for t
    proof -
      have "t \<in> set (timers y)" using that(1) set_remove1_subset by fastforce
      then have "t = l" using pending_single(3)[OF l(1)] that(2) by simp
      then show ?thesis using l(2) by simp
    qed
    then have "filter (\<lambda>t. callback_of t = LockCb)
          (filter (\<lambda>t. Some (timer_id t) \<noteq> timer y) (remove1 u (timers y))) = []"
      by (auto simp: filter_empty_conv)
    then have "pending LockCb (resetActivityTimer ?q) =
        [(Suc (issued y), max (now y) (due u) + ?d, LockCb)]"
      using y by (simp add: resetActivityTimer_def setTimeout_def Let_def pending_def
          callback_of_def clearTimeout_def)
    moreover have "timer (resetActivityTimer ?q) = Some (Suc (issued y))"
      "\<not> isLocked (resetActivityTimer ?q)" "listening (resetActivityTimer ?q)"
      "config (resetActivityTimer ?q) = config y"
      "now (resetActivityTimer ?q) = max (now y) (due u)"
      using y by (simp_all add: resetActivityTimer_def setTimeout_def Let_def clearTimeout_def)
    moreover have "lo \<le> max (now y) (due u) + ?d" using assms(4) by simp
    ultimately have "monitoring lo (resetActivityTimer ?q)"
      unfolding monitoring_iff using y by (simp add: timer_id_def due_def)
    then show ?thesis using ActivityCb by (simp add: fire_def run_callback_def)
  qed
qed

lemma monitoring_later:
  assumes "monitoring lo y"
  shows "monitoring lo (y\<lparr>now := max (now y) T\<rparr>)"
  by (rule monitoring_frame[OF assms]) (simp_all add: pending_def)

lemma monitoring_wait:
  assumes "monitoring lo y" "inputBuffer y = []" "pin (config y) \<noteq> []"
    "lo \<le> now y + delay_ms (timeout (config y))" "T < lo"
  shows "monitoring lo (run_until T y)"
  using assms
proof (induction T y rule: run_until.induct)
  case (1 T st)
  show ?case
  proof (cases "earliest (timers st)")
    case None
    then show ?thesis
      using monitoring_later[OF "1.prems"(1)] by (simp add: run_until_stop(1))
  next
    case (Some u)
    show ?thesis
    proof (cases "due u \<le> T")
      case True
      have lt: "due u < lo" using True "1.prems"(5) by simp
      have m: "monitoring lo (fire u st)"
        using "1.prems"(1-4) earliest_mem[OF Some] lt by (rule monitoring_fire)
      have q: "inputBuffer (fire u st) = []" "config (fire u st) = config st"
        using quiet_fire[OF "1.prems"(2,3), of u] by blast+
      have p: "pin (config (fire u st)) \<noteq> []" using q(2) "1.prems"(3) by simp
      have n: "lo \<le> now (fire u st) + delay_ms (timeout (config (fire u st)))"
        using "1.prems"(4) q(2) by (simp add: now_fire max_def)
      show ?thesis
        using "1.IH"[OF Some True m q(1) p n "1.prems"(5)]
        by (simp add: run_until_step[OF Some True])
    next
      case False
      then show ?thesis
        using monitoring_later[OF "1.prems"(1)] by (simp add: run_until_stop(2)[OF Some])
    qed
  qed
qed

lemma open_fire:
  assumes "\<not> isLocked y" "\<not> enabled (config y)" "pending LockCb y = []"
    "inputBuffer y = []" "pin (config y) \<noteq> []"  "u \<in> set (timers y)"
  shows "\<not> isLocked (fire u y)" "pending LockCb (fire u y) = []"
proof -
  have nl: "callback_of u \<noteq> LockCb" using assms(3,6) by (simp add: pending_none)
  then show "\<not> isLocked (fire u y)" using assms(1,2,4,5)
    by (cases "callback_of u")
       (simp_all add: fire_def run_callback_def checkPin_def showError_def setTimeout_def
          updateDots_def resetActivityTimer_def)
  have "pending LockCb (y\<lparr>timers := remove1 u (timers y), now := max (now y) (due u),
                fired := fired y @ [(max (now y) (due u), callback_of u)]\<rparr>) = []"
    using assms(3) by (simp add: pending_def filter_remove1)
  then show "pending LockCb (fire u y) = []" using nl assms(1,2,4,5)
    by (cases "callback_of u")
       (simp_all add: fire_def run_callback_def checkPin_def showError_def setTimeout_def
          updateDots_def resetActivityTimer_def pending_def callback_of_def)
qed

lemma open_wait:
  assumes "\<not> isLocked y" "\<not> enabled (config y)" "pending LockCb y = []"
    "inputBuffer y = []" "pin (config y) \<noteq> []"
  shows "\<not> isLocked (run_until T y)"
  using assms
proof (induction T y rule: run_until.induct)
  case (1 T st)
  show ?case
  proof (cases "earliest (timers st)")
    case None
    then show ?thesis using "1.prems"(1) by (simp add: run_until_stop(1))
  next
    case (Some u)
    show ?thesis
    proof (cases "due u \<le> T")
      case True
      note o = open_fire[OF "1.prems" earliest_mem[OF Some]]
      have q: "inputBuffer (fire u st) = []" "config (fire u st) = config st"
        using quiet_fire[OF "1.prems"(4,5), of u] by blast+
      have e: "\<not> enabled (config (fire u st))" "pin (config (fire u st)) \<noteq> []"
        using q(2) "1.prems"(2,5) by simp_all
      show ?thesis
        using "1.IH"[OF Some True o(1) e(1) o(2) q(1) e(2)]
        by (simp add: run_until_step[OF Some True])
    next
      case False
      then show ?thesis using "1.prems"(1) by (simp add: run_until_stop(2)[OF Some])
    qed
  qed
qed

lemma right_check:
  assumes "isLocked x" "pending CheckPinCb x = [chk]" "now x \<le> due chk"
    "inputBuffer x = pin (config x)" "pin (config x) \<noteq> []" "due chk \<le> T"
  shows "unlocks (run_until T x) = Suc (unlocks x) \<and> inputBuffer (run_until T x) = []
    \<and> config (run_until T x) = config x
    \<and> (pending LockCb x = [] \<and> \<not> enabled (config x) \<longrightarrow> \<not> isLocked (run_until T x))
    \<and> (pending LockCb x = [] \<and> enabled (config x) \<and> boundReset x
        \<and> T < due chk + delay_ms (timeout (config x)) \<longrightarrow>
          monitoring (due chk + delay_ms (timeout (config x))) (run_until T x))"
  using assms
proof (induction T x rule: run_until.induct)
  case (1 T st)
  note c = pending_single[OF "1.prems"(2)]
  obtain u where Some: "earliest (timers st) = Some u"
    using c(1) by (cases "earliest (timers st)") (auto simp: earliest_none)
  note mem = earliest_mem[OF Some]
  have le: "due u \<le> due chk" using earliest_le[OF Some c(1)] .
  then have True: "due u \<le> T" using "1.prems"(6) by simp
  note r = run_until_step[OF Some True]
  let ?d = "delay_ms (timeout (config st))"
  show ?case
  proof (cases "callback_of u = CheckPinCb")
    case check: True
    then have u: "u = chk" using c(3) mem by simp
    let ?p = "st\<lparr>timers := remove1 chk (timers st), now := max (now st) (due chk),
                  fired := fired st @ [(max (now st) (due chk), CheckPinCb)]\<rparr>"
    let ?z = "unlock ?p"
    have z: "fire chk st = ?z"
      using fire_check[OF c(2), of st] "1.prems"(4) by (simp add: checkPin_def)
    note f = unlock_fields[of ?p]
    have np: "now ?p = due chk" using "1.prems"(3) by (simp add: max_def)
    have pz: "pin (config ?z) \<noteq> []" using f(3) "1.prems"(5) by simp
    let ?y = "run_until T ?z"
    have q: "unlocks ?y = unlocks ?z" "inputBuffer ?y = []" "config ?y = config ?z"
      using quiet_wait[OF f(2) pz, of T] by blast+
    have un: "unlocks ?y = Suc (unlocks st)" using q(1) f(4) by (simp add: unlocks_def)
    have cf: "config ?y = config st" using q(3) f(3) by simp
    have pl: "pending LockCb ?p = []" if "pending LockCb st = []"
      using that by (simp add: pending_fired)
    have off: "\<not> isLocked ?y" if a: "pending LockCb st = []" "\<not> enabled (config st)"
    proof -
      have "\<not> enabled (config ?z)" using f(3) a(2) by simp
      moreover have "pending LockCb ?z = []" using unlock_off[OF pl[OF a(1)]] a(2) by simp
      ultimately show ?thesis using f(1,2) pz by (intro open_wait)
    qed
    have on: "monitoring (due chk + ?d) ?y"
      if a: "pending LockCb st = []" "enabled (config st)" "boundReset st" "T < due chk + ?d"
    proof -
      have e: "enabled (config ?p)" "boundReset ?p" using a(2,3) by simp_all
      note m = unlock_monitor[OF pl[OF a(1)] e]
      have "pending LockCb ?z = [(Suc (issued st), due chk + ?d, LockCb)]"
        using m(3) np by simp
      then have mz: "monitoring (due chk + ?d) ?z"
        unfolding monitoring_iff using f(1,3,5) m(1,2) a(2) np
        by (simp add: timer_id_def due_def)
      have lo: "due chk + ?d \<le> now ?z + delay_ms (timeout (config ?z))"
        using f(3,5) np by simp
      show ?thesis using mz f(2) pz lo a(4) by (rule monitoring_wait)
    qed
    show ?thesis
      unfolding r u z using un q(2) cf off on by blast
  next
    case other: False
    note f = locked_fire[OF "1.prems"(1) other]
    have p1: "pending CheckPinCb (fire u st) = [chk]"
      unfolding pending_def f(6) using other "1.prems"(2)
      by (simp add: filter_remove1_other pending_def)
    have n1: "now (fire u st) \<le> due chk" unfolding f(7) using "1.prems"(3) le by simp
    have b1: "inputBuffer (fire u st) = pin (config (fire u st))"
      unfolding f(2,3) by (rule "1.prems"(4))
    have b2: "pin (config (fire u st)) \<noteq> []" unfolding f(3) by (rule "1.prems"(5))
    let ?y = "run_until T (fire u st)"
    have ih: "unlocks ?y = Suc (unlocks (fire u st))" "inputBuffer ?y = []"
      "config ?y = config (fire u st)"
      "pending LockCb (fire u st) = [] \<and> \<not> enabled (config (fire u st)) \<longrightarrow> \<not> isLocked ?y"
      "pending LockCb (fire u st) = [] \<and> enabled (config (fire u st)) \<and> boundReset (fire u st)
        \<and> T < due chk + delay_ms (timeout (config (fire u st))) \<longrightarrow>
          monitoring (due chk + delay_ms (timeout (config (fire u st)))) ?y"
      using "1.IH"[OF Some True f(1) p1 n1 b1 b2 "1.prems"(6)] by blast+
    have pl: "pending LockCb (fire u st) = []" if "pending LockCb st = []"
      unfolding pending_def f(6) using that by (simp add: filter_remove1 pending_def)
    have un: "unlocks ?y = Suc (unlocks st)" using ih(1) f(4) by (simp add: unlocks_def)
    show ?thesis
      unfolding r using un ih(2) ih(3)[unfolded f(3)] ih(4)[unfolded f(3)]
        ih(5)[unfolded f(3) f(8)] pl
      by blast
  qed
qed

lemma check_outcome:
  assumes "isLocked s" "pending CheckPinCb s = []" "is_digit c"
    "Suc (length (inputBuffer s)) = length_c (config s)"
  shows "(T < now s + 100 \<longrightarrow>
           inputBuffer (run_until T (handleInput [c] s)) = inputBuffer s @ [c]
           \<and> unlocks (run_until T (handleInput [c] s)) = unlocks s)
       \<and> (now s + 100 \<le> T \<longrightarrow>
           inputBuffer (run_until T (handleInput [c] s)) = []
           \<and> unlocks (run_until T (handleInput [c] s)) =
               (if inputBuffer s @ [c] = pin (config s) then Suc (unlocks s) else unlocks s)
           \<and> (inputBuffer s @ [c] \<noteq> pin (config s) \<longrightarrow>
                isLocked (run_until T (handleInput [c] s))))"
proof -
  let ?x = "handleInput [c] s"
  let ?c = "(Suc (issued s), now s + 100, CheckPinCb)"
  let ?y = "run_until T ?x"
  have room: "length (inputBuffer s) < length_c (config s)" using assms(4) by simp
  note h = handleInput_digit[OF room, of c]
  have x: "isLocked ?x" "inputBuffer ?x = inputBuffer s @ [c]" "config ?x = config s"
    "screenOps ?x = screenOps s" "now ?x = now s" "timers ?x = timers s @ [?c]"
    using h assms(1,4) by simp_all
  have nc: "\<forall>t\<in>set (timers s). callback_of t \<noteq> CheckPinCb"
    using assms(2) by (simp add: pending_none)
  then have p: "pending CheckPinCb ?x = [?c]"
    unfolding pending_def x(6) by (simp add: callback_of_def filter_empty_conv)
  have dc: "due ?c = now s + 100" by (simp add: due_def)
  have nw: "now ?x \<le> due ?c" using x(5) dc by simp
  have early: "inputBuffer ?y = inputBuffer s @ [c] \<and> unlocks ?y = unlocks s"
    if "T < now s + 100"
  proof -
    have "\<forall>t\<in>set (timers ?x). callback_of t = CheckPinCb \<longrightarrow> T < due t"
      using pending_single(3)[OF p] that dc by fastforce
    then show ?thesis using locked_wait[OF x(1), of T] x(2,4) by (simp add: unlocks_def)
  qed
  have match: "inputBuffer ?y = [] \<and> unlocks ?y = Suc (unlocks s)"
    if a: "now s + 100 \<le> T" "inputBuffer s @ [c] = pin (config s)"
  proof -
    have "due ?c \<le> T" using a(1) dc by simp
    moreover have "inputBuffer ?x = pin (config ?x)" "pin (config ?x) \<noteq> []"
      using x(2,3) a(2) by auto
    ultimately show ?thesis
      using right_check[OF x(1) p nw, of T] x(4) by (simp add: unlocks_def)
  qed
  have other: "inputBuffer ?y = [] \<and> unlocks ?y = unlocks s \<and> isLocked ?y"
    if a: "now s + 100 \<le> T" "inputBuffer s @ [c] \<noteq> pin (config s)"
  proof -
    have "due ?c \<le> T" using a(1) dc by simp
    moreover have "inputBuffer ?x \<noteq> pin (config ?x)" using x(2,3) a(2) by simp
    ultimately show ?thesis
      using wrong_check[OF x(1) p nw, of T] x(4) by (simp add: unlocks_def)
  qed
  show ?thesis using early match other by auto
qed

text \<open>
  Claim C9. The lock screen receives key presses and clicks, at any times, with the
  timers that are due firing between them. If the buffer holds only digits and no
  more than the configured length before, it does so after. A digit that arrives
  when the buffer is full changes neither the buffer nor the timers, backspace on an
  empty buffer leaves it empty, and the digit that fills the buffer sets the timer
  that checks the PIN 100 ms later. The firing of such a timer, in whatever state,
  is a call of \<^verbatim>\<open>checkPin\<close>. On a locked screen with no other check pending the
  buffer stays full until 100 ms have passed and has been checked from then on: it
  is empty, and the screen has been unlocked once if the buffer was the PIN, and is
  still locked and has not been unlocked if it was not.
\<close>

theorem buffer_digits_bounded:
  assumes "buffer_ok st" "\<forall>e\<in>set es. input_event (snd e)"
  shows "buffer_ok (run es st)
    \<and> (is_digit c \<and> length_c (config s) \<le> length (inputBuffer s) \<longrightarrow>
         inputBuffer (handleInput [c] s) = inputBuffer s \<and> timers (handleInput [c] s) = timers s)
    \<and> (inputBuffer s = [] \<longrightarrow>
         inputBuffer (handleInput ''backspace'' s) = []
         \<and> timers (handleInput ''backspace'' s) = timers s
         \<and> isLocked (handleInput ''backspace'' s) = isLocked s)
    \<and> (is_digit c \<and> Suc (length (inputBuffer s)) = length_c (config s) \<longrightarrow>
         inputBuffer (handleInput [c] s) = inputBuffer s @ [c]
         \<and> timers (handleInput [c] s) = timers s @ [(Suc (issued s), now s + 100, CheckPinCb)])
    \<and> fire (i, d, CheckPinCb) x =
        checkPin (x\<lparr>timers := remove1 (i, d, CheckPinCb) (timers x), now := max (now x) d,
                    fired := fired x @ [(max (now x) d, CheckPinCb)]\<rparr>)
    \<and> (is_digit c \<and> Suc (length (inputBuffer s)) = length_c (config s)
        \<and> isLocked s \<and> pending CheckPinCb s = [] \<longrightarrow>
         (T < now s + 100 \<longrightarrow>
            inputBuffer (run_until T (handleInput [c] s)) = inputBuffer s @ [c]
            \<and> unlocks (run_until T (handleInput [c] s)) = unlocks s)
         \<and> (now s + 100 \<le> T \<longrightarrow>
            inputBuffer (run_until T (handleInput [c] s)) = []
            \<and> unlocks (run_until T (handleInput [c] s)) =
                (if inputBuffer s @ [c] = pin (config s) then Suc (unlocks s) else unlocks s)
            \<and> (inputBuffer s @ [c] \<noteq> pin (config s) \<longrightarrow>
                 isLocked (run_until T (handleInput [c] s)))))"
proof -
  have a: "buffer_ok (run es st)" using ok_run[OF assms] by simp
  have n: "[c] \<noteq> ''backspace''" "[c] \<noteq> ''enter''" by simp_all
  have b: "is_digit c \<and> length_c (config s) \<le> length (inputBuffer s) \<longrightarrow>
         inputBuffer (handleInput [c] s) = inputBuffer s \<and> timers (handleInput [c] s) = timers s"
    using n by (simp add: handleInput_def updateDots_def)
  have e: "inputBuffer s = [] \<longrightarrow>
         inputBuffer (handleInput ''backspace'' s) = []
         \<and> timers (handleInput ''backspace'' s) = timers s
         \<and> isLocked (handleInput ''backspace'' s) = isLocked s"
    by (simp add: handleInput_def updateDots_def)
  have f: "is_digit c \<and> Suc (length (inputBuffer s)) = length_c (config s) \<longrightarrow>
         inputBuffer (handleInput [c] s) = inputBuffer s @ [c]
         \<and> timers (handleInput [c] s) = timers s @ [(Suc (issued s), now s + 100, CheckPinCb)]"
    using n by (auto simp: handleInput_def Let_def setTimeout_def updateDots_def)
  have g: "fire (i, d, CheckPinCb) x =
        checkPin (x\<lparr>timers := remove1 (i, d, CheckPinCb) (timers x), now := max (now x) d,
                    fired := fired x @ [(max (now x) d, CheckPinCb)]\<rparr>)"
    using fire_check[of "(i, d, CheckPinCb)" x] by (simp add: callback_of_def due_def)
  have h: "is_digit c \<and> Suc (length (inputBuffer s)) = length_c (config s)
        \<and> isLocked s \<and> pending CheckPinCb s = [] \<longrightarrow>
         (T < now s + 100 \<longrightarrow>
            inputBuffer (run_until T (handleInput [c] s)) = inputBuffer s @ [c]
            \<and> unlocks (run_until T (handleInput [c] s)) = unlocks s)
         \<and> (now s + 100 \<le> T \<longrightarrow>
            inputBuffer (run_until T (handleInput [c] s)) = []
            \<and> unlocks (run_until T (handleInput [c] s)) =
                (if inputBuffer s @ [c] = pin (config s) then Suc (unlocks s) else unlocks s)
            \<and> (inputBuffer s @ [c] \<noteq> pin (config s) \<longrightarrow>
                 isLocked (run_until T (handleInput [c] s))))"
    using check_outcome[of s c T] by blast
  show ?thesis using a b e f g h by blast
qed

theorem buffer_digits_bounded_witness:
  "buffer_ok locked_screen
   \<and> list_all (\<lambda>e. input_event (snd e))
        [(2000, KeyDown ''1''), (2010, KeyDown ''x''), (2020, Click (Some ''2'')),
         (2030, KeyDown ''Backspace''), (2040, KeyDown ''7''), (2050, KeyDown ''F5'')]
   \<and> inputBuffer (run [(2000, KeyDown ''1''), (2010, KeyDown ''x''), (2020, Click (Some ''2'')),
                 (2030, KeyDown ''Backspace''), (2040, KeyDown ''7''), (2050, KeyDown ''F5'')]
                 locked_screen) = ''17''
   \<and> buffer_ok (run [(2000, KeyDown ''1''), (2010, KeyDown ''x''), (2020, Click (Some ''2'')),
                 (2030, KeyDown ''Backspace''), (2040, KeyDown ''7''), (2050, KeyDown ''F5'')]
                 locked_screen)
   \<and> inputBuffer (handleInput ''5'' (locked_screen\<lparr>inputBuffer := ''1234''\<rparr>)) = ''1234''
   \<and> inputBuffer (handleInput ''backspace'' locked_screen) = []
   \<and> timers (handleInput ''4'' (locked_screen\<lparr>inputBuffer := ''123''\<rparr>)) = [(2, 1100, CheckPinCb)]
   \<and> inputBuffer (run_until 1099 (handleInput ''4'' (locked_screen\<lparr>inputBuffer := ''123''\<rparr>))) =
       ''1234''
   \<and> inputBuffer (run_until 1100 (handleInput ''4'' (locked_screen\<lparr>inputBuffer := ''123''\<rparr>))) = []
   \<and> unlocks (run_until 1100 (handleInput ''4'' (locked_screen\<lparr>inputBuffer := ''123''\<rparr>))) = 1
   \<and> inputBuffer (run_until 1100 (handleInput ''5'' (locked_screen\<lparr>inputBuffer := ''123''\<rparr>))) = []
   \<and> unlocks (run_until 1100 (handleInput ''5'' (locked_screen\<lparr>inputBuffer := ''123''\<rparr>))) = 0
   \<and> isLocked (run_until 1100 (handleInput ''5'' (locked_screen\<lparr>inputBuffer := ''123''\<rparr>)))"
proof -
  let ?es = "[(2000, KeyDown ''1''), (2010, KeyDown ''x''), (2020, Click (Some ''2'')),
                 (2030, KeyDown ''Backspace''), (2040, KeyDown ''7''), (2050, KeyDown ''F5'')]"
  let ?s = "locked_screen\<lparr>inputBuffer := ''123''\<rparr>"
  have h: "buffer_ok locked_screen" "\<forall>e\<in>set ?es. input_event (snd e)"
    by (simp_all add: locked_screen_eq buffer_ok_def keypad_def is_upper_def)
  have l: "list_all (\<lambda>e. input_event (snd e)) ?es"
    by (simp add: keypad_def is_upper_def)
  have v: "inputBuffer (run ?es locked_screen) = ''17''"
    by (simp add: locked_screen_eq lock_defs run_until.simps)
  have d: "is_digit CHR ''5''" "is_digit CHR ''4''"
    by (simp_all add: is_digit_def)
  have s: "Suc (length (inputBuffer ?s)) = length_c (config ?s)" "isLocked ?s"
    "pending CheckPinCb ?s = []" "now ?s = 1000" "unlocks ?s = 0" "issued ?s = 1"
    "timers ?s = []" "inputBuffer ?s = ''123''" "pin (config ?s) = ''1234''"
    by (simp_all add: locked_screen_eq pending_def unlocks_def)
  have f: "length_c (config (locked_screen\<lparr>inputBuffer := ''1234''\<rparr>))
        \<le> length (inputBuffer (locked_screen\<lparr>inputBuffer := ''1234''\<rparr>))"
    "inputBuffer (locked_screen\<lparr>inputBuffer := ''1234''\<rparr>) = ''1234''"
    "inputBuffer locked_screen = []"
    by (simp_all add: locked_screen_eq)
  have i: "(1099::nat) < 1000 + 100" "(1000::nat) + 100 \<le> 1100" by simp_all
  note a = buffer_digits_bounded [OF h, where c = "CHR ''5''"
      and s = "locked_screen\<lparr>inputBuffer := ''1234''\<rparr>"]
  note b = buffer_digits_bounded [OF h, where c = "CHR ''4''" and s = locked_screen]
  note c4 = buffer_digits_bounded [OF h, where c = "CHR ''4''" and s = ?s and T = 1099]
  note c5 = buffer_digits_bounded [OF h, where c = "CHR ''4''" and s = ?s and T = 1100]
  note c6 = buffer_digits_bounded [OF h, where c = "CHR ''5''" and s = ?s and T = 1100]
  have a1: "buffer_ok (run ?es locked_screen)" using a by blast
  have a2: "inputBuffer (handleInput ''5'' (locked_screen\<lparr>inputBuffer := ''1234''\<rparr>)) = ''1234''"
    using a d(1) f(1,2) by simp
  have b2: "inputBuffer (handleInput ''backspace'' locked_screen) = []"
    using b f(3) by blast
  have c1: "timers (handleInput ''4'' ?s) = [(2, 1100, CheckPinCb)]"
    using c4 d(2) s(1) unfolding s(4,6,7) by simp
  have c2: "inputBuffer (run_until 1099 (handleInput ''4'' ?s)) = ''1234''"
    using c4 d(2) s(1,2,3) i(1) unfolding s(4,8) by simp
  have c3: "inputBuffer (run_until 1100 (handleInput ''4'' ?s)) = []"
    "unlocks (run_until 1100 (handleInput ''4'' ?s)) = 1"
    using c5 d(2) s(1,2,3) i(2) unfolding s(4,5,8,9) by simp_all
  have c7: "inputBuffer (run_until 1100 (handleInput ''5'' ?s)) = []"
    "unlocks (run_until 1100 (handleInput ''5'' ?s)) = 0"
    "isLocked (run_until 1100 (handleInput ''5'' ?s))"
    using c6 d(1) s(1,2,3) i(2) unfolding s(4,5,8,9) by simp_all
  show ?thesis
    using h(1) l v a1 a2 b2 c1 c2 c3 c7 by blast
qed


subsection \<open>Entering a PIN\<close>






subsection \<open>The inactivity timer of a locked screen\<close>


























section \<open>The activity monitor\<close>

lemma spaced_snoc:
  "spaced xs \<Longrightarrow> list_all (\<lambda>r. r + 1000 \<le> y) xs \<Longrightarrow> spaced (xs @ [y])"
  by (induction xs rule: spaced.induct) auto

lemma limiter_frame:
  assumes "timers a = timers b" "issued a = issued b" "now a = now b" "fired a = fired b"
    "debounceTimer a = debounceTimer b"
  shows "limiter_ok a = limiter_ok b"
  using assms by (simp add: limiter_ok_def resets_def)

lemma limiter_clear: "limiter_ok st \<Longrightarrow> limiter_ok (clearTimeout i st)"
  by (auto simp: limiter_ok_def resets_def clearTimeout_def list_all_iff distinct_map_filter)

lemma limiter_set:
  assumes "limiter_ok st" "cb \<noteq> ActivityCb"
  shows "limiter_ok (snd (setTimeout cb ms st))"
  using assms
  by (fastforce simp: limiter_ok_def resets_def setTimeout_def list_all_iff timer_id_def
      callback_of_def)

lemma limiter_later: "limiter_ok st \<Longrightarrow> now st \<le> n \<Longrightarrow> limiter_ok (st\<lparr>now := n\<rparr>)"
  by (fastforce simp: limiter_ok_def resets_def list_all_iff)

lemma limiter_fields:
  "limiter_ok (st\<lparr>isLocked := a\<rparr>) = limiter_ok st"
  "limiter_ok (st\<lparr>boundReset := b\<rparr>) = limiter_ok st"
  "limiter_ok (st\<lparr>inputBuffer := c\<rparr>) = limiter_ok st"
  "limiter_ok (st\<lparr>timer := d\<rparr>) = limiter_ok st"
  "limiter_ok (st\<lparr>config := e\<rparr>) = limiter_ok st"
  "limiter_ok (st\<lparr>listening := f\<rparr>) = limiter_ok st"
  "limiter_ok (st\<lparr>stored := g\<rparr>) = limiter_ok st"
  "limiter_ok (st\<lparr>dots := h\<rparr>) = limiter_ok st"
  "limiter_ok (st\<lparr>screenOps := i\<rparr>) = limiter_ok st"
  by (simp_all add: limiter_ok_def resets_def)

lemma limiter_stop: "limiter_ok st \<Longrightarrow> limiter_ok (stopActivityMonitoring st)"
  by (simp add: limiter_fields stopActivityMonitoring_def limiter_clear)

lemma limiter_reset: "limiter_ok st \<Longrightarrow> limiter_ok (resetActivityTimer st)"
  by (simp add: limiter_fields resetActivityTimer_def Let_def limiter_clear limiter_set)

lemma limiter_start: "limiter_ok st \<Longrightarrow> limiter_ok (startActivityMonitoring st)"
  by (simp add: limiter_fields startActivityMonitoring_def Let_def limiter_stop limiter_reset)

lemma limiter_updateDots: "limiter_ok st \<Longrightarrow> limiter_ok (updateDots st)"
  by (simp add: limiter_fields updateDots_def)

lemma limiter_showError: "limiter_ok st \<Longrightarrow> limiter_ok (showError st)"
  by (simp add: limiter_fields showError_def limiter_set)

lemma limiter_lock: "limiter_ok st \<Longrightarrow> limiter_ok (lock st)"
  by (simp add: limiter_fields lock_def Let_def limiter_stop limiter_updateDots)

lemma limiter_unlock: "limiter_ok st \<Longrightarrow> limiter_ok (unlock st)"
  by (simp add: limiter_fields unlock_def Let_def limiter_start)

lemma limiter_checkPin: "limiter_ok st \<Longrightarrow> limiter_ok (checkPin st)"
  by (simp add: limiter_fields checkPin_def limiter_unlock limiter_showError)

lemma limiter_handleInput: "limiter_ok st \<Longrightarrow> limiter_ok (handleInput key st)"
  by (simp add: limiter_fields handleInput_def Let_def limiter_checkPin limiter_updateDots limiter_set)

lemma limiter_updateSettings: "limiter_ok st \<Longrightarrow> limiter_ok (updateSettings c st)"
  by (simp add: limiter_fields updateSettings_def saveConfig_def Let_def limiter_start limiter_stop)

lemma limiter_handleActivity:
  assumes "limiter_ok st"
  shows "limiter_ok (handleActivity st)"
proof (cases "truthy (debounceTimer st)")
  case True
  then show ?thesis using assms by (simp add: limiter_fields handleActivity_def)
next
  case False
  have none: "\<forall>t\<in>set (timers st). callback_of t \<noteq> ActivityCb"
    using assms False by (auto simp: limiter_fields limiter_ok_def list_all_iff truthy_def)
  show ?thesis
    using assms False none
    by (fastforce simp: limiter_fields handleActivity_def limiter_ok_def resets_def setTimeout_def Let_def
        list_all_iff timer_id_def callback_of_def due_def)
qed

lemma distinct_ids_remove1:
  "distinct (map timer_id ts) \<Longrightarrow> distinct (map timer_id (remove1 t ts))"
proof (induction ts)
  case Nil
  then show ?case by (simp add: limiter_fields)
next
  case (Cons a ts)
  then show ?case using set_remove1_subset[of t ts] by auto
qed

lemma limiter_fire_other:
  assumes "limiter_ok st" "callback_of t \<noteq> ActivityCb"
  shows "limiter_ok (st\<lparr>timers := remove1 t (timers st), now := max (now st) (due t),
           fired := fired st @ [(max (now st) (due t), callback_of t)]\<rparr>)"
proof -
  have sub: "set (remove1 t (timers st)) \<subseteq> set (timers st)" by (rule set_remove1_subset)
  have le: "\<forall>r\<in>set (resets st). r \<le> max (now st) (due t)"
    using assms(1) by (fastforce simp: limiter_fields limiter_ok_def list_all_iff)
  show ?thesis
    using assms sub le distinct_ids_remove1[of "timers st" t]
    by (auto simp: limiter_fields limiter_ok_def resets_def list_all_iff)
qed

lemma limiter_fire_activity:
  assumes "limiter_ok st" "t \<in> set (timers st)" "callback_of t = ActivityCb"
  shows "limiter_ok (st\<lparr>timers := remove1 t (timers st), now := max (now st) (due t),
           fired := fired st @ [(max (now st) (due t), callback_of t)],
           debounceTimer := None\<rparr>)"
proof -
  let ?f = "max (now st) (due t)"
  have d: "distinct (map timer_id (timers st))" using assms(1) by (simp add: limiter_fields limiter_ok_def)
  have id: "debounceTimer st = Some (timer_id t)"
    and far: "list_all (\<lambda>r. r + 1000 \<le> due t) (resets st)"
    using assms by (auto simp: limiter_fields limiter_ok_def list_all_iff)
  have none: "callback_of u \<noteq> ActivityCb" if "u \<in> set (remove1 t (timers st))" for u
  proof
    assume a: "callback_of u = ActivityCb"
    have u: "u \<in> set (timers st)" using that set_remove1_subset by fastforce
    then have "timer_id u = timer_id t"
      using assms(1) a id by (auto simp: limiter_fields limiter_ok_def list_all_iff)
    then have "u = t" using d u assms(2) by (meson distinct_map inj_onD)
    moreover have "distinct (timers st)" using d by (simp add: limiter_fields distinct_map)
    ultimately show False using that by (simp add: limiter_fields)
  qed
  have r: "resets (st\<lparr>timers := remove1 t (timers st), now := ?f,
           fired := fired st @ [(?f, callback_of t)], debounceTimer := None\<rparr>) = resets st @ [?f]"
    using assms(3) by (simp add: limiter_fields resets_def)
  have sp: "spaced (resets st @ [?f])"
  proof (rule spaced_snoc)
    show "spaced (resets st)" using assms(1) by (simp add: limiter_fields limiter_ok_def)
    show "list_all (\<lambda>r. r + 1000 \<le> ?f) (resets st)"
      using far by (auto simp: limiter_fields list_all_iff)
  qed
  have le: "list_all (\<lambda>r. r \<le> ?f) (resets st @ [?f])"
    using assms(1) by (fastforce simp: limiter_fields limiter_ok_def list_all_iff)
  have ids: "list_all (\<lambda>u. 0 < timer_id u \<and> timer_id u \<le> issued st) (remove1 t (timers st))"
    using assms(1) set_remove1_subset[of t "timers st"]
    by (auto simp: limiter_fields limiter_ok_def list_all_iff)
  show ?thesis
    unfolding limiter_ok_def r
    using sp le ids distinct_ids_remove1[OF d, of t] none
    by (simp add: limiter_fields list_all_iff)
qed

lemma limiter_fire:
  assumes "limiter_ok st" "t \<in> set (timers st)"
  shows "limiter_ok (fire t st)"
proof (cases "callback_of t = ActivityCb")
  case True
  let ?p = "st\<lparr>timers := remove1 t (timers st), now := max (now st) (due t),
           fired := fired st @ [(max (now st) (due t), callback_of t)]\<rparr>"
  have "limiter_ok (?p\<lparr>debounceTimer := None\<rparr>)"
    using limiter_fire_activity[OF assms True] by (simp add: limiter_fields)
  then have "limiter_ok (resetActivityTimer (?p\<lparr>debounceTimer := None\<rparr>))"
    by (rule limiter_reset)
  then show ?thesis using True by (simp add: limiter_fields fire_def run_callback_def)
next
  case False
  note p = limiter_fire_other[OF assms(1) False]
  show ?thesis
    using False p limiter_checkPin[OF p] limiter_updateDots[OF p] limiter_lock[OF p]
    by (cases "callback_of t") (simp_all add: limiter_fields fire_def run_callback_def)
qed

lemma limiter_run_until: "limiter_ok st \<Longrightarrow> limiter_ok (run_until T st)"
proof (induction T st rule: run_until.induct)
  case (1 T st)
  show ?case
  proof (cases "earliest (timers st)")
    case None
    then show ?thesis using limiter_later[OF "1.prems", of "max (now st) T"]
      by (subst run_until.simps) (simp add: limiter_fields)
  next
    case (Some t)
    show ?thesis
    proof (cases "due t \<le> T")
      case True
      have "limiter_ok (fire t st)"
        using limiter_fire[OF "1.prems"] earliest_mem[OF Some] by (simp add: limiter_fields)
      then show ?thesis using "1.IH"[OF Some True] Some True
        by (subst run_until.simps) (simp add: limiter_fields)
    next
      case False
      then show ?thesis using limiter_later[OF "1.prems", of "max (now st) T"] Some
        by (subst run_until.simps) (simp add: limiter_fields)
    qed
  qed
qed

lemma limiter_dispatch: "limiter_ok st \<Longrightarrow> limiter_ok (dispatch e st)"
  by (cases e)
     (auto simp: limiter_fields dispatch_def on_keydown_def on_click_def on_activity_def saveSettings_click_def
       Let_def limiter_handleInput limiter_handleActivity limiter_lock limiter_updateSettings
       split: option.splits)

lemma limiter_run: "limiter_ok st \<Longrightarrow> limiter_ok (run es st)"
  by (induction es arbitrary: st) (simp_all add: limiter_fields limiter_run_until limiter_dispatch)

lemma limiter_init: "limiter_ok (init (initial\<lparr>stored := c\<rparr>))"
proof -
  have "limiter_ok (initial\<lparr>stored := c\<rparr>)"
    by (simp add: limiter_fields limiter_ok_def resets_def initial_def)
  then have "limiter_ok ((renderLockScreen (loadConfig (initial\<lparr>stored := c\<rparr>)))\<lparr>boundReset := True\<rparr>)"
    by (simp add: limiter_fields renderLockScreen_def loadConfig_def split: option.splits)
  then show ?thesis
    by (simp add: limiter_fields init_def Let_def limiter_start)
qed

text \<open>
  Claim C2, as the code has it. Whatever happens on the page after \<^verbatim>\<open>init\<close>, and
  however many signals arrive, two resets by the rate limiter are at least 1000 ms
  apart. A signal that finds \<^verbatim>\<open>debounceTimer\<close> clear does not reset the
  inactivity timer: it leaves that timer as it is and sets the limiter's timer,
  due 1000 ms later; a signal that finds \<^verbatim>\<open>debounceTimer\<close> set is dropped. When
  the limiter's timer fires it clears \<^verbatim>\<open>debounceTimer\<close> and, if the lock is
  enabled and the screen unlocked, sets the inactivity timer anew.
\<close>

theorem resets_a_second_apart:
  "spaced (resets (run es (init (initial\<lparr>stored := c\<rparr>))))
   \<and> (\<not> truthy (debounceTimer st) \<longrightarrow>
        timers (handleActivity st) = timers st @ [(Suc (issued st), now st + 1000, ActivityCb)]
        \<and> debounceTimer (handleActivity st) = Some (Suc (issued st))
        \<and> timer (handleActivity st) = timer st
        \<and> fired (handleActivity st) = fired st)
   \<and> (truthy (debounceTimer st) \<longrightarrow> handleActivity st = st)
   \<and> debounceTimer (run_callback ActivityCb st) = None
   \<and> (enabled (config st) \<and> \<not> isLocked st \<longrightarrow>
        timer (run_callback ActivityCb st) = Some (Suc (issued st))
        \<and> timers (run_callback ActivityCb st) =
            filter (\<lambda>t. Some (timer_id t) \<noteq> timer st) (timers st) @
            [(Suc (issued st), now st + delay_ms (timeout (config st)), LockCb)])"
proof -
  have "limiter_ok (run es (init (initial\<lparr>stored := c\<rparr>)))"
    using limiter_init by (rule limiter_run)
  then have "spaced (resets (run es (init (initial\<lparr>stored := c\<rparr>))))"
    by (simp add: limiter_fields limiter_ok_def)
  then show ?thesis
    by (simp add: limiter_fields handleActivity_def run_callback_def resetActivityTimer_def setTimeout_def
        clearTimeout_def Let_def)
qed

lemma replicate_four: "replicate 4 x = [x, x, x, x]"
  by (simp add: limiter_fields numeral_eq_Suc)

lemma enabled_screen_eq: "run [(0, SaveSettings pin_form)] (init initial) =
  \<lparr>timers = [(1, 300000, LockCb)], issued = 1, now = 0, fired = [], isLocked = False,
   boundReset = True, debounceTimer = None, inputBuffer = [], timer = Some 1,
   config = \<lparr>enabled = True, pin = ''1234'', length_c = 4, timeout = Num 300000\<rparr>,
   listening = True,
   stored = Some \<lparr>enabled = True, pin = ''1234'', length_c = 4, timeout = Num 300000\<rparr>,
   dots = [(False, False), (False, False), (False, False), (False, False)],
   screenOps = []\<rparr>"
  by (simp add: limiter_fields pin_form_def lock_defs run_until.simps replicate_four)

theorem resets_a_second_apart_witness:
  "\<not> truthy (debounceTimer (run [(0, SaveSettings pin_form)] (init initial)))
   \<and> resets (run [(0, SaveSettings pin_form), (5000, Activity), (5100, Activity),
                  (6000, Activity), (6500, Activity), (7500, Activity)] (init initial)) =
       [6000, 7000]
   \<and> spaced (resets (run [(0, SaveSettings pin_form), (5000, Activity), (5100, Activity),
                  (6000, Activity), (6500, Activity), (7500, Activity)] (init initial)))
   \<and> timers (handleActivity (run [(0, SaveSettings pin_form)] (init initial))) =
       [(1, 300000, LockCb), (2, 1000, ActivityCb)]
   \<and> timer (handleActivity (run [(0, SaveSettings pin_form)] (init initial))) = Some 1
   \<and> handleActivity (handleActivity (run [(0, SaveSettings pin_form)] (init initial))) =
       handleActivity (run [(0, SaveSettings pin_form)] (init initial))"
proof -
  let ?es = "[(0, SaveSettings pin_form), (5000, Activity), (5100, Activity),
                  (6000, Activity), (6500, Activity), (7500, Activity)]"
  let ?st = "run [(0, SaveSettings pin_form)] (init initial)"
  have i: "initial\<lparr>stored := None\<rparr> = initial" by (simp add: limiter_fields initial_def)
  have r: "resets (run ?es (init initial)) = [6000, 7000]"
    by (simp add: limiter_fields pin_form_def lock_defs run_until.simps resets_def)
  have v: "\<not> truthy (debounceTimer ?st)" "timers ?st = [(1, 300000, LockCb)]"
    "issued ?st = 1" "now ?st = 0" "timer ?st = Some 1"
    unfolding enabled_screen_eq by (simp_all add: limiter_fields truthy_def)
  have t: "truthy (debounceTimer (handleActivity ?st))"
    unfolding enabled_screen_eq by (simp add: limiter_fields truthy_def handleActivity_def setTimeout_def)
  note a = resets_a_second_apart [of ?es None ?st, unfolded i]
  note b = resets_a_second_apart [of ?es None "handleActivity ?st", unfolded i]
  have a1: "spaced (resets (run ?es (init initial)))" using a by blast
  have a2: "timers (handleActivity ?st) = timers ?st @ [(Suc (issued ?st), now ?st + 1000, ActivityCb)]"
    "timer (handleActivity ?st) = timer ?st"
    using a v(1) by blast+
  have b1: "handleActivity (handleActivity ?st) = handleActivity ?st"
    using b t by blast
  have a3: "timers (handleActivity ?st) = [(1, 300000, LockCb), (2, 1000, ActivityCb)]"
    "timer (handleActivity ?st) = Some 1"
    using a2 unfolding v by (simp_all add: limiter_fields)
  show ?thesis using v(1) r a1 a3 b1 by blast
qed

text \<open>
  Against the claim as stated: the lock is enabled at time 0, so the inactivity
  timer is due at 300000, and no timer of the limiter is pending. The first signal
  arrives at 5000. The inactivity timer is still due at 300000 and no reset has
  happened; the reset happens at 6000.
\<close>

theorem first_signal_resets_later:
  "debounceTimer (run [(0, SaveSettings pin_form)] (init initial)) = None
   \<and> timers (run [(0, SaveSettings pin_form)] (init initial)) = [(1, 300000, LockCb)]
   \<and> timers (run [(0, SaveSettings pin_form), (5000, Activity)] (init initial)) =
       [(1, 300000, LockCb), (2, 6000, ActivityCb)]
   \<and> resets (run [(0, SaveSettings pin_form), (5000, Activity)] (init initial)) = []
   \<and> timers (run_until 6000
         (run [(0, SaveSettings pin_form), (5000, Activity)] (init initial))) =
       [(3, 306000, LockCb)]
   \<and> resets (run_until 6000
         (run [(0, SaveSettings pin_form), (5000, Activity)] (init initial))) = [6000]"
  by (simp add: limiter_fields pin_form_def lock_defs run_until.simps resets_def)

text \<open>
  \<^verbatim>\<open>stopActivityMonitoring\<close> cancels the limiter's timer and leaves its id in
  \<^verbatim>\<open>debounceTimer\<close>. A signal arrives at 500, the screen is locked at 1000 before
  the limiter's timer has fired, and the PIN unlocks it at 2400: the listeners are
  attached and the inactivity timer is due at 302400, but \<^verbatim>\<open>debounceTimer\<close> still
  holds the id of the cancelled timer. Every later signal finds it set and is
  dropped, no reset happens, and the screen locks at 302400 although the last signal
  came 1 ms before.
\<close>

theorem signals_dropped_after_unlock:
  "debounceTimer (run_until 2400
      (run [(0, SaveSettings pin_form), (500, Activity), (1000, LockButton),
            (2000, KeyDown ''1''), (2100, KeyDown ''2''), (2200, KeyDown ''3''),
            (2300, KeyDown ''4'')] (init initial))) = Some 2
   \<and> timers (run_until 2400
      (run [(0, SaveSettings pin_form), (500, Activity), (1000, LockButton),
            (2000, KeyDown ''1''), (2100, KeyDown ''2''), (2200, KeyDown ''3''),
            (2300, KeyDown ''4'')] (init initial))) = [(4, 302400, LockCb)]
   \<and> listening (run_until 2400
      (run [(0, SaveSettings pin_form), (500, Activity), (1000, LockButton),
            (2000, KeyDown ''1''), (2100, KeyDown ''2''), (2200, KeyDown ''3''),
            (2300, KeyDown ''4'')] (init initial)))
   \<and> timers (run [(5000, Activity), (100000, Activity), (302399, Activity)]
       (run_until 2400
         (run [(0, SaveSettings pin_form), (500, Activity), (1000, LockButton),
               (2000, KeyDown ''1''), (2100, KeyDown ''2''), (2200, KeyDown ''3''),
               (2300, KeyDown ''4'')] (init initial)))) = [(4, 302400, LockCb)]
   \<and> isLocked (run_until 302400
       (run [(5000, Activity), (100000, Activity), (302399, Activity)]
         (run_until 2400
           (run [(0, SaveSettings pin_form), (500, Activity), (1000, LockButton),
                 (2000, KeyDown ''1''), (2100, KeyDown ''2''), (2200, KeyDown ''3''),
                 (2300, KeyDown ''4'')] (init initial)))))"
  by (simp add: pin_form_def lock_defs run_until.simps)


end
